theory Spec2Isabelle
  imports Main
begin

section \<open>Strings, whitespace and Python's string helpers\<close>

text \<open>
  A Python \<open>str\<close> is a sequence of Unicode code points; \<open>list(word)\<close>, \<open>len\<close> and the
  regular-expression engine all work per code point. A code point is modelled as the
  integer \<open>ord\<close> gives for it and a string as a list of code points. \<open>ustr\<close> turns an
  Isabelle literal (ASCII) into such a string.
\<close>

type_synonym codepoint = int
type_synonym str = "codepoint list"

definition ustr :: "string \<Rightarrow> str" where
  "ustr s = map of_char s"

definition space :: codepoint where
  "space = 32"

definition newline :: codepoint where
  "newline = 10"

definition backslash :: codepoint where
  "backslash = 92"

text \<open>The end-of-word marker \<open></w>\<close>: the four code points of \<open><\<close>, \<open>/\<close>, \<open>w\<close>, \<open>>\<close>.\<close>

definition end_marker :: str where
  "end_marker = [60, 47, 119, 62]"

text \<open>
  \<open>str.isspace\<close> on one code point. \<open>str.strip()\<close>, \<open>str.split()\<close> and the classes
  \<open>\s\<close>, \<open>\S\<close> of \<open>re\<close> (on \<open>str\<close> patterns) all use this one predicate.
\<close>

definition isspace :: "codepoint \<Rightarrow> bool" where
  "isspace c \<longleftrightarrow>
     (9 \<le> c \<and> c \<le> 13) \<or> (28 \<le> c \<and> c \<le> 32) \<or> c = 133 \<or> c = 160 \<or> c = 5760 \<or>
     (8192 \<le> c \<and> c \<le> 8202) \<or> c = 8232 \<or> c = 8233 \<or> c = 8239 \<or> c = 8287 \<or> c = 12288"

text \<open>\<open>line.strip()\<close>: leading and trailing whitespace removed.\<close>

definition strip :: "str \<Rightarrow> str" where
  "strip s = rev (dropWhile isspace (rev (dropWhile isspace s)))"

text \<open>
  \<open>s.split()\<close> with no argument: the maximal runs of non-whitespace, in order; no empty
  string is ever produced. \<open>cur\<close> is the run being read.
\<close>

fun split_from :: "str \<Rightarrow> str \<Rightarrow> str list" where
  "split_from cur [] = (if cur = [] then [] else [cur])"
| "split_from cur (c # cs) =
     (if isspace c then (if cur = [] then split_from [] cs else cur # split_from [] cs)
      else split_from (cur @ [c]) cs)"

definition split_ws :: "str \<Rightarrow> str list" where
  "split_ws s = split_from [] s"

text \<open>\<open>' '.join(xs)\<close>.\<close>

fun join_sp :: "str list \<Rightarrow> str" where
  "join_sp [] = []"
| "join_sp [x] = x"
| "join_sp (x # y # ys) = x @ space # join_sp (y # ys)"

section \<open>Dictionaries\<close>

text \<open>
  A Python \<open>dict\<close> (and \<open>Counter\<close>) iterates in insertion order, and \<open>max\<close> over the pair
  statistics depends on that order, so a dictionary is an association list in insertion
  order. \<open>d[k] = v\<close> overwrites the value of a present key in place and appends an absent
  key at the end.
\<close>

fun dict_set :: "('k \<times> 'v) list \<Rightarrow> 'k \<Rightarrow> 'v \<Rightarrow> ('k \<times> 'v) list" where
  "dict_set [] k v = [(k, v)]"
| "dict_set ((k', v') # d) k v =
     (if k' = k then (k, v) # d else (k', v') # dict_set d k v)"

text \<open>\<open>d.get(k, default)\<close>; for a \<open>Counter\<close>, \<open>d[k]\<close> is \<open>d.get(k, 0)\<close>.\<close>

definition dict_get :: "('k \<times> 'v) list \<Rightarrow> 'k \<Rightarrow> 'v \<Rightarrow> 'v" where
  "dict_get d k dflt = (case map_of d k of None \<Rightarrow> dflt | Some v \<Rightarrow> v)"

type_synonym pair = "str \<times> str"
type_synonym vocab = "(str \<times> int) list"
type_synonym stats = "(pair \<times> int) list"

section \<open>Errors and files\<close>

text \<open>
  The exceptions the program can raise: \<open>FileNotFoundError\<close> and \<open>RuntimeError\<close> from
  reading the corpus, \<open>ValueError\<close> for a corpus without words, and \<open>SubError\<close> for the
  exception \<open>pattern.sub\<close> raises on a replacement template it rejects (\<open>re.error\<close>, or
  \<open>IndexError\<close> for an unknown group name).
\<close>

datatype error = FileNotFoundError | RuntimeError | ValueError | SubError

text \<open>
  What opening and reading the corpus file gives: the file is absent, reading it fails
  for another reason, or it yields its lines.
\<close>

datatype corpus_file = Absent | Unreadable | Lines "str list"

section \<open>read_sentences\<close>

text \<open>\<open>' '.join(list(word)) + ' </w>'\<close>\<close>

definition tokenized :: "str \<Rightarrow> str" where
  "tokenized word = join_sp (map (\<lambda>c. [c]) word) @ space # end_marker"

text \<open>The loop \<open>for word in words\<close>, with \<open>vocab[tokenized] += 1\<close> on a \<open>Counter\<close>.\<close>

fun count_words :: "vocab \<Rightarrow> str list \<Rightarrow> vocab" where
  "count_words vocab [] = vocab"
| "count_words vocab (word # words) =
     (if word \<noteq> []
      then count_words (dict_set vocab (tokenized word) (dict_get vocab (tokenized word) 0 + 1)) words
      else count_words vocab words)"

text \<open>The loop over the lines of the file.\<close>

fun count_lines :: "vocab \<Rightarrow> str list \<Rightarrow> vocab" where
  "count_lines vocab [] = vocab"
| "count_lines vocab (line # lines) =
     (let line' = strip line
      in if line' = [] then count_lines vocab lines
         else count_lines (count_words vocab (split_ws line')) lines)"

definition read_sentences :: "corpus_file \<Rightarrow> error + vocab" where
  "read_sentences f =
     (case f of
        Absent \<Rightarrow> Inl FileNotFoundError
      | Unreadable \<Rightarrow> Inl RuntimeError
      | Lines ls \<Rightarrow>
          (let vocab = count_lines [] ls
           in if vocab = [] then Inl ValueError else Inr vocab))"

section \<open>get_stats\<close>

text \<open>The pairs \<open>(symbols[i], symbols[i + 1])\<close> for \<open>i\<close> in \<open>range(len(symbols) - 1)\<close>.\<close>

definition adjacent :: "'a list \<Rightarrow> ('a \<times> 'a) list" where
  "adjacent symbols = zip symbols (tl symbols)"

definition add_pair :: "int \<Rightarrow> pair \<Rightarrow> stats \<Rightarrow> stats" where
  "add_pair freq p pairs = dict_set pairs p (dict_get pairs p 0 + freq)"

definition add_word :: "str \<times> int \<Rightarrow> stats \<Rightarrow> stats" where
  "add_word e pairs = fold (add_pair (snd e)) (adjacent (split_ws (fst e))) pairs"

definition get_stats :: "vocab \<Rightarrow> stats" where
  "get_stats vocab = fold add_word vocab []"

section \<open>Selecting the best pair\<close>

text \<open>
  \<open>max(pairs, key=pairs.get)\<close>: \<open>max\<close> walks the keys in iteration order and replaces its
  candidate only by a key whose value is strictly greater. The keys walked are keys of
  \<open>pairs\<close>, so \<open>pairs.get\<close> never returns \<open>None\<close> here and the default of \<open>dict_get\<close> is
  never used. On an empty dictionary \<open>max\<close> raises \<open>ValueError\<close>.
\<close>

fun max_from :: "('a \<Rightarrow> int) \<Rightarrow> 'a \<Rightarrow> 'a list \<Rightarrow> 'a" where
  "max_from key best [] = best"
| "max_from key best (x # xs) =
     (if key best < key x then max_from key x xs else max_from key best xs)"

definition max_key :: "stats \<Rightarrow> error + pair" where
  "max_key pairs =
     (case map fst pairs of
        [] \<Rightarrow> Inl ValueError
      | k # ks \<Rightarrow> Inr (max_from (\<lambda>p. dict_get pairs p 0) k ks))"

section \<open>merge_vocab\<close>

subsection \<open>The replacement template\<close>

text \<open>
  \<open>pattern.sub(repl, word)\<close> with a string \<open>repl\<close> does not insert \<open>repl\<close> as it is: it
  reads \<open>repl\<close> as a template in which a backslash starts an escape. A template is parsed
  into literal code points and references to the whole match (group 0; the pattern has no
  other group). The cases, in the order of \<open>re\<close>'s template parser:
  \<^item> a backslash at the end is an error;
  \<^item> \<open>\g<name>\<close>: an error unless \<open>name\<close> is a decimal number with value 0, which stands
    for the whole match (a name written with other characters than ASCII digits is an
    error too, as from Python 3.12);
  \<^item> \<open>\0\<close> with up to two more octal digits is the code point with that octal value;
  \<^item> a backslash and three octal digits is the code point with that value, an error above
    \<open>0o377\<close>; any other backslash and digit is a reference to a group that does not exist,
    an error;
  \<^item> \<open>\a \b \f \n \r \t \v \\\<close> are the control characters and the backslash;
  \<^item> a backslash and another ASCII letter is an error; a backslash and anything else
    stays as the two code points.
\<close>

datatype titem = Lit codepoint | Whole

definition is_digit :: "codepoint \<Rightarrow> bool" where
  "is_digit c \<longleftrightarrow> 48 \<le> c \<and> c \<le> 57"

definition is_octdigit :: "codepoint \<Rightarrow> bool" where
  "is_octdigit c \<longleftrightarrow> 48 \<le> c \<and> c \<le> 55"

definition is_ascii_letter :: "codepoint \<Rightarrow> bool" where
  "is_ascii_letter c \<longleftrightarrow> (65 \<le> c \<and> c \<le> 90) \<or> (97 \<le> c \<and> c \<le> 122)"

definition digit_val :: "codepoint \<Rightarrow> int" where
  "digit_val c = c - 48"

text \<open>The table \<open>ESCAPES\<close> of the template parser, by the character after the backslash.\<close>

definition escape_of :: "codepoint \<Rightarrow> codepoint option" where
  "escape_of c =
     (if c = 97 then Some 7 else if c = 98 then Some 8 else if c = 102 then Some 12
      else if c = 110 then Some 10 else if c = 114 then Some 13 else if c = 116 then Some 9
      else if c = 118 then Some 11 else if c = 92 then Some 92 else None)"

text \<open>
  One step of the template parser on a non-empty template \<open>c # cs\<close>: the items the next
  token stands for and the rest of the template.
\<close>

definition template_step :: "codepoint \<Rightarrow> str \<Rightarrow> error + (titem list \<times> str)" where
  "template_step c cs =
     (if c \<noteq> backslash then Inr ([Lit c], cs)
      else (case cs of
        [] \<Rightarrow> Inl SubError
      | e # rest \<Rightarrow>
          (if e = 103 then
             (case rest of
                [] \<Rightarrow> Inl SubError
              | l # rest' \<Rightarrow>
                  (let name = takeWhile (\<lambda>d. d \<noteq> 62) rest';
                       after = dropWhile (\<lambda>d. d \<noteq> 62) rest'
                   in if l \<noteq> 60 \<or> after = [] \<or> name = [] then Inl SubError
                      else if list_all (\<lambda>d. d = 48) name then Inr ([Whole], tl after)
                      else Inl SubError))
           else if e = 48 then
             (let ds = takeWhile is_octdigit (take 2 rest)
              in Inr ([Lit (foldl (\<lambda>a d. 8 * a + digit_val d) 0 ds)], drop (length ds) rest))
           else if is_digit e then
             (case rest of
                d1 # d2 # rest' \<Rightarrow>
                  (let v = 64 * digit_val e + 8 * digit_val d1 + digit_val d2
                   in if is_octdigit e \<and> is_octdigit d1 \<and> is_octdigit d2 \<and> v \<le> 255
                      then Inr ([Lit v], rest')
                      else Inl SubError)
              | _ \<Rightarrow> Inl SubError)
           else (case escape_of e of
             Some ch \<Rightarrow> Inr ([Lit ch], rest)
           | None \<Rightarrow>
               (if is_ascii_letter e then Inl SubError
                else Inr ([Lit backslash, Lit e], rest))))))"

lemma template_step_shorter:
  "template_step c cs = Inr (its, rest) \<Longrightarrow> length rest \<le> length cs"
proof -
  have dw: "\<And>P (xs::str). length (tl (dropWhile P xs)) \<le> length xs"
    by (metis diff_le_self le_trans length_dropWhile_le length_tl)
  assume a: "template_step c cs = Inr (its, rest)"
  show ?thesis
  proof (cases "c = backslash")
    case False
    with a show ?thesis by (simp add: template_step_def)
  next
    case True
    with a show ?thesis
      using dw [of "\<lambda>d. d \<noteq> 62"]
      by (auto simp: template_step_def Let_def le_Suc_eq
          split: list.splits if_splits option.splits
          intro: le_trans [OF dw])
  qed
qed

function parse_template :: "str \<Rightarrow> error + titem list" where
  "parse_template [] = Inr []"
| "parse_template (c # cs) =
     (case template_step c cs of
        Inl e \<Rightarrow> Inl e
      | Inr (its, rest) \<Rightarrow>
          (case parse_template rest of
             Inl e \<Rightarrow> Inl e
           | Inr more \<Rightarrow> Inr (its @ more)))"
  by pat_completeness auto
termination
  by (relation "measure length") (auto dest: template_step_shorter)

text \<open>The text one match is replaced by: the items in order, \<open>Whole\<close> standing for the match.\<close>

definition expand_template :: "titem list \<Rightarrow> str \<Rightarrow> str" where
  "expand_template its m = concat (map (\<lambda>i. case i of Lit c \<Rightarrow> [c] | Whole \<Rightarrow> m) its)"

subsection \<open>The substitution\<close>

text \<open>
  The pattern is \<open>(?<!\S)\<close>, then the escaped bigram \<open>x y\<close> (matched literally), then
  \<open>(?!\S)\<close>. It matches at a position when no non-whitespace character precedes the
  position (\<open>bnd\<close>: the position is the start of the string or follows whitespace), the
  bigram is the text there, and no non-whitespace character follows it.
\<close>

definition match_here :: "str \<Rightarrow> bool \<Rightarrow> str \<Rightarrow> bool" where
  "match_here bigram bnd s \<longleftrightarrow>
     bnd \<and> take (length bigram) s = bigram \<and>
     (case drop (length bigram) s of [] \<Rightarrow> True | d # _ \<Rightarrow> isspace d)"

text \<open>
  \<open>pattern.sub\<close> scans from the left. At a match it emits the replacement and goes on
  behind the match; elsewhere it copies one character and moves on by one. The bigram is
  \<open>x\<close>, a space and \<open>y\<close>: it is never empty, so every match consumes at least one
  character. The look-behind reads the subject string itself, so behind a match it sees
  the last character of the bigram.
\<close>

function sub_scan :: "str \<Rightarrow> str \<Rightarrow> str \<Rightarrow> bool \<Rightarrow> str \<Rightarrow> str" where
  "sub_scan x y r bnd [] = []"
| "sub_scan x y r bnd (c # cs) =
     (if match_here (x @ space # y) bnd (c # cs)
      then r @ sub_scan x y r (isspace (last (space # y))) (drop (length x + length y) cs)
      else c # sub_scan x y r (isspace c) cs)"
  by pat_completeness auto
termination
  by (relation "measure (\<lambda>(x, y, r, bnd, s). length s)") auto

text \<open>
  \<open>pattern.sub(''.join(pair), word)\<close>: the template is compiled first, also when the
  word has no match, and a rejected template raises.
\<close>

definition pattern_sub :: "pair \<Rightarrow> str \<Rightarrow> error + str" where
  "pattern_sub pair word =
     (let bigram = fst pair @ space # snd pair
      in case parse_template (fst pair @ snd pair) of
           Inl e \<Rightarrow> Inl e
         | Inr its \<Rightarrow>
             Inr (sub_scan (fst pair) (snd pair) (expand_template its bigram) True word))"

text \<open>The loop \<open>for word, freq in vocab.items()\<close>, filling \<open>vocab_new\<close>.\<close>

fun merge_entries :: "pair \<Rightarrow> vocab \<Rightarrow> vocab \<Rightarrow> error + vocab" where
  "merge_entries pair [] vocab_new = Inr vocab_new"
| "merge_entries pair ((word, freq) # rest) vocab_new =
     (case pattern_sub pair word of
        Inl e \<Rightarrow> Inl e
      | Inr new_word \<Rightarrow>
          (if new_word \<noteq> word
           then merge_entries pair rest (dict_set vocab_new new_word freq)
           else merge_entries pair rest (dict_set vocab_new word freq)))"

definition merge_vocab :: "pair \<Rightarrow> vocab \<Rightarrow> error + vocab" where
  "merge_vocab pair vocab = merge_entries pair vocab []"

section \<open>learn_bpe\<close>

text \<open>
  The loop \<open>for i in range(num_merges)\<close>, with the number of rounds left: it stops early
  (\<open>break\<close>) when the statistics are empty, and an exception of \<open>merge_vocab\<close> leaves it.
\<close>

fun bpe_loop :: "nat \<Rightarrow> vocab \<Rightarrow> pair list \<Rightarrow> error + (pair list \<times> vocab)" where
  "bpe_loop 0 vocab bpe_merges = Inr (bpe_merges, vocab)"
| "bpe_loop (Suc n) vocab bpe_merges =
     (let pairs = get_stats vocab
      in if pairs = [] then Inr (bpe_merges, vocab)
         else (case max_key pairs of
           Inl e \<Rightarrow> Inl e
         | Inr best_pair \<Rightarrow>
             (case merge_vocab best_pair vocab of
                Inl e \<Rightarrow> Inl e
              | Inr vocab' \<Rightarrow> bpe_loop n vocab' (bpe_merges @ [best_pair]))))"

text \<open>The rules file: one line \<open>x y\<close> per rule, in the order learned.\<close>

definition rule_line :: "pair \<Rightarrow> str" where
  "rule_line p = fst p @ space # snd p @ [newline]"

definition rules_text :: "pair list \<Rightarrow> str" where
  "rules_text bpe_merges = concat (map rule_line bpe_merges)"

text \<open>
  \<open>learn_bpe\<close> returns the rules and the final vocabulary, or raises. The second component
  of the model is the output file: \<open>None\<close> when the run never opened it, otherwise the text
  written. (\<open>range\<close> of a negative budget is empty. Progress messages are left out, and
  so is a failure of the write itself.)
\<close>

definition learn_bpe :: "corpus_file \<Rightarrow> int \<Rightarrow> (error + (pair list \<times> vocab)) \<times> str option" where
  "learn_bpe corpus_file num_merges =
     (case read_sentences corpus_file of
        Inl e \<Rightarrow> (Inl e, None)
      | Inr vocab \<Rightarrow>
          (case bpe_loop (nat num_merges) vocab [] of
             Inl e \<Rightarrow> (Inl e, None)
           | Inr (bpe_merges, vocab') \<Rightarrow>
               (Inr (bpe_merges, vocab'), Some (rules_text bpe_merges))))"

section \<open>Reference notions of the specification\<close>

text \<open>
  Replaying a list of merge rules, first to last: the left fold of \<open>merge_vocab\<close> over the
  rules, stopping at the first exception.
\<close>

fun replay :: "pair list \<Rightarrow> vocab \<Rightarrow> error + vocab" where
  "replay [] vocab = Inr vocab"
| "replay (p # ps) vocab =
     (case merge_vocab p vocab of Inl e \<Rightarrow> Inl e | Inr vocab' \<Rightarrow> replay ps vocab')"

text \<open>
  The number of non-overlapping occurrences of a pair in a symbol sequence, counted from
  the left: an occurrence uses up both of its symbols.
\<close>

fun count_nonoverlap :: "pair \<Rightarrow> str list \<Rightarrow> nat" where
  "count_nonoverlap p (a # b # rest) =
     (if (a, b) = p then Suc (count_nonoverlap p rest) else count_nonoverlap p (b # rest))"
| "count_nonoverlap p [] = 0"
| "count_nonoverlap p [a] = 0"

text \<open>
  The reference rewrite of one entry, on the symbol sequence: every non-overlapping
  occurrence of the pair, from the left, becomes the concatenation of its two symbols.
\<close>

fun merge_symbols :: "pair \<Rightarrow> str list \<Rightarrow> str list" where
  "merge_symbols p (a # b # rest) =
     (if (a, b) = p then (a @ b) # merge_symbols p rest else a # merge_symbols p (b # rest))"
| "merge_symbols p [] = []"
| "merge_symbols p [a] = [a]"

text \<open>
  The reference rewrite of a vocabulary: each entry's key is split into its symbols,
  rewritten by \<open>merge_symbols\<close> and joined again; the entries are collected as
  \<open>merge_vocab\<close> collects them.
\<close>

definition rewrite_by_symbols :: "pair \<Rightarrow> vocab \<Rightarrow> vocab" where
  "rewrite_by_symbols p vocab =
     fold (\<lambda>e vocab_new. dict_set vocab_new (join_sp (merge_symbols p (split_ws (fst e)))) (snd e))
       vocab []"

section \<open>Well-formed keys\<close>

text \<open>
  A key of the vocabulary stands for a sequence of symbols: non-empty strings without
  whitespace, joined by single spaces. \<open>wf_key\<close> says that a string is such a key: joining
  its symbols gives it back.
\<close>

definition nospace :: "str \<Rightarrow> bool" where
  "nospace s \<longleftrightarrow> list_all (\<lambda>c. \<not> isspace c) s"

definition wf_syms :: "str list \<Rightarrow> bool" where
  "wf_syms syms \<longleftrightarrow> list_all (\<lambda>s. s \<noteq> [] \<and> nospace s) syms"

definition wf_key :: "str \<Rightarrow> bool" where
  "wf_key k \<longleftrightarrow> join_sp (split_ws k) = k"

text \<open>What stands behind a symbol in a joined key: nothing, or a space and more symbols.\<close>

definition tail_ok :: "str \<Rightarrow> bool" where
  "tail_ok t \<longleftrightarrow> (case t of [] \<Rightarrow> True | d # _ \<Rightarrow> d = space)"

text \<open>A string ends with the text of the end marker.\<close>

definition ends_marker :: "str \<Rightarrow> bool" where
  "ends_marker s \<longleftrightarrow> drop (length s - length end_marker) s = end_marker"

text \<open>
  What every entry keeps in a run on a corpus without backslash: its key is well-formed
  and has no backslash, and its last symbol ends with the text of the end marker.
\<close>

definition entry_ok :: "str \<Rightarrow> bool" where
  "entry_ok k \<longleftrightarrow>
     wf_key k \<and> backslash \<notin> set k \<and> split_ws k \<noteq> [] \<and> ends_marker (last (split_ws k))"

section \<open>Splitting and counting\<close>

lemma split_from_nonspace:
  "\<forall>c\<in>set w. \<not> isspace c \<Longrightarrow> split_from cur (w @ s) = split_from (cur @ w) s"
  by (induction w arbitrary: cur) auto

lemma split_from_spaces:
  "\<forall>c\<in>set ws. isspace c \<Longrightarrow> split_from cur ws = (if cur = [] then [] else [cur])"
  by (induction ws arbitrary: cur) auto

lemma split_from_append_spaces:
  "\<forall>c\<in>set ws. isspace c \<Longrightarrow> split_from cur (s @ ws) = split_from cur s"
  by (induction s arbitrary: cur) (auto simp: split_from_spaces)

lemma split_from_dropWhile: "split_from [] (dropWhile isspace s) = split_from [] s"
  by (induction s) auto

lemma split_ws_strip: "split_ws (strip s) = split_ws s"
proof -
  let ?t = "dropWhile isspace s"
  have "?t = rev (dropWhile isspace (rev ?t)) @ rev (takeWhile isspace (rev ?t))"
    by (metis rev_append rev_rev_ident takeWhile_dropWhile_id)
  moreover have "\<forall>c\<in>set (rev (takeWhile isspace (rev ?t))). isspace c"
    by (auto dest: set_takeWhileD)
  ultimately have "split_from [] ?t = split_from [] (rev (dropWhile isspace (rev ?t)))"
    by (metis split_from_append_spaces)
  then show ?thesis
    by (simp add: split_ws_def strip_def split_from_dropWhile)
qed

lemma split_from_nonempty: "w \<in> set (split_from cur s) \<Longrightarrow> w \<noteq> []"
  by (induction s arbitrary: cur) (auto split: if_splits)

lemma split_ws_nonempty: "w \<in> set (split_ws s) \<Longrightarrow> w \<noteq> []"
  by (auto simp: split_ws_def dest: split_from_nonempty)

lemma filter_split_ws: "filter (\<lambda>w. w \<noteq> []) (split_ws s) = split_ws s"
  by (simp add: filter_id_conv split_ws_nonempty)

lemma strip_empty_split: "strip s = [] \<Longrightarrow> split_ws s = []"
  by (metis split_ws_strip split_ws_def split_from.simps(1))

lemma sum_dict_incr:
  "sum_list (map snd (dict_set d k (dict_get d k 0 + 1))) = sum_list (map snd d) + (1::int)"
  by (induction d) (auto simp: dict_get_def)

lemma sum_count_words:
  "sum_list (map snd (count_words vocab ws)) =
     sum_list (map snd vocab) + int (length (filter (\<lambda>w. w \<noteq> []) ws))"
  by (induction ws arbitrary: vocab) (auto simp: sum_dict_incr)

lemma sum_count_lines:
  "sum_list (map snd (count_lines vocab ls)) =
     sum_list (map snd vocab) + int (length (concat (map split_ws ls)))"
  by (induction ls arbitrary: vocab)
     (auto simp: Let_def sum_count_words filter_split_ws split_ws_strip strip_empty_split)

lemma count_lines_no_words:
  "concat (map split_ws ls) = [] \<Longrightarrow> count_lines vocab ls = vocab"
  by (induction ls arbitrary: vocab) (auto simp: Let_def split_ws_strip)

section \<open>The corpus without words\<close>

text \<open>
  Claim C8. When no line of the corpus holds a word (every line splits into nothing, as
  blank and whitespace-only lines do), training raises \<open>ValueError\<close>, the error of the
  empty corpus, whatever the budget, and the output file is never opened.
\<close>

theorem empty_corpus_fails:
  assumes "concat (map split_ws ls) = []"
  shows "learn_bpe (Lines ls) num_merges = (Inl ValueError, None)"
  using assms by (simp add: learn_bpe_def read_sentences_def count_lines_no_words)

theorem empty_corpus_fails_witness:
  "concat (map split_ws [[], [32, 9], [10]]) = [] \<and>
   learn_bpe (Lines [[], [32, 9], [10]]) 7 = (Inl ValueError, None)"
proof -
  have h: "concat (map split_ws [[], [32, 9], [10]]) = []"
    by (simp add: split_ws_def isspace_def)
  show ?thesis using h empty_corpus_fails [OF h, of 7] by simp
qed

section \<open>Budget zero\<close>

text \<open>
  Claim C9. On a corpus with at least one word, training with budget 0 returns no rule
  and the vocabulary of \<open>read_sentences\<close> unchanged (and writes an empty rules file); the
  counts of that vocabulary add up to the number of whitespace-delimited words of the
  corpus.
\<close>

theorem budget_zero:
  assumes "concat (map split_ws ls) \<noteq> []"
  shows "\<exists>vocab. read_sentences (Lines ls) = Inr vocab \<and>
           learn_bpe (Lines ls) 0 = (Inr ([], vocab), Some []) \<and>
           sum_list (map snd vocab) = int (length (concat (map split_ws ls)))"
proof -
  let ?v = "count_lines [] ls"
  have s: "sum_list (map snd ?v) = int (length (concat (map split_ws ls)))"
    using sum_count_lines [of "[]" ls] by simp
  with assms have ne: "?v \<noteq> []" by auto
  then have r: "read_sentences (Lines ls) = Inr ?v"
    by (simp add: read_sentences_def)
  then have "learn_bpe (Lines ls) 0 = (Inr ([], ?v), Some [])"
    by (simp add: learn_bpe_def rules_text_def)
  with r s show ?thesis by blast
qed

theorem budget_zero_witness:
  "concat (map split_ws [ustr ''ab a'', [], ustr '' ab'']) \<noteq> [] \<and>
   (\<exists>vocab. read_sentences (Lines [ustr ''ab a'', [], ustr '' ab'']) = Inr vocab \<and>
           learn_bpe (Lines [ustr ''ab a'', [], ustr '' ab'']) 0 = (Inr ([], vocab), Some []) \<and>
           sum_list (map snd vocab) = 3)"
proof -
  have h: "concat (map split_ws [ustr ''ab a'', [], ustr '' ab'']) \<noteq> []"
    by code_simp
  have l: "int (length (concat (map split_ws [ustr ''ab a'', [], ustr '' ab'']))) = 3"
    by code_simp
  show ?thesis using h budget_zero [OF h] unfolding l by simp
qed

section \<open>The training loop\<close>

lemma bpe_loop_replay:
  "bpe_loop n vocab acc = Inr (ms, vocab') \<Longrightarrow>
     \<exists>new. ms = acc @ new \<and> replay new vocab = Inr vocab'"
proof (induction n arbitrary: vocab acc)
  case 0
  then show ?case by auto
next
  case (Suc n)
  show ?case
  proof (cases "get_stats vocab = []")
    case True
    with Suc.prems show ?thesis by auto
  next
    case False
    with Suc.prems obtain best v1 where
      b: "max_key (get_stats vocab) = Inr best" and
      m: "merge_vocab best vocab = Inr v1" and
      r: "bpe_loop n v1 (acc @ [best]) = Inr (ms, vocab')"
      by (auto simp: Let_def split: sum.splits)
    from Suc.IH [OF r] obtain new where "ms = (acc @ [best]) @ new" "replay new v1 = Inr vocab'"
      by blast
    with m have "ms = acc @ (best # new) \<and> replay (best # new) vocab = Inr vocab'"
      by simp
    then show ?thesis by blast
  qed
qed

lemma bpe_loop_stays:
  "bpe_loop k vocab acc = Inr (ms, v) \<Longrightarrow> get_stats v = [] \<Longrightarrow>
     bpe_loop (k + j) vocab acc = Inr (ms, v)"
proof (induction k arbitrary: vocab acc)
  case 0
  then show ?case by (cases j) auto
next
  case (Suc k)
  then show ?case
    by (cases "get_stats vocab = []") (auto simp: Let_def split: sum.splits)
qed

lemma bpe_loop_length:
  "bpe_loop k vocab acc = Inr (ms, v) \<Longrightarrow> length ms \<le> length acc + k"
proof (induction k arbitrary: vocab acc)
  case 0
  then show ?case by auto
next
  case (Suc k)
  then show ?case
    by (cases "get_stats vocab = []") (fastforce simp: Let_def split: sum.splits)+
qed

text \<open>
  Claim C10. Whenever training returns, the vocabulary it returns is the initial
  vocabulary of \<open>read_sentences\<close> with the returned rules replayed on it in order, first
  to last; the rules file holds exactly those rules.
\<close>

theorem final_vocab_is_replay:
  assumes "learn_bpe f num_merges = (Inr (bpe_merges, vocab'), out)"
  shows "\<exists>vocab. read_sentences f = Inr vocab \<and> replay bpe_merges vocab = Inr vocab' \<and>
           out = Some (rules_text bpe_merges)"
proof -
  from assms obtain vocab where r: "read_sentences f = Inr vocab"
    by (auto simp: learn_bpe_def split: sum.splits)
  with assms have l: "bpe_loop (nat num_merges) vocab [] = Inr (bpe_merges, vocab')"
    and o: "out = Some (rules_text bpe_merges)"
    by (auto simp: learn_bpe_def split: sum.splits)
  from bpe_loop_replay [OF l] have "replay bpe_merges vocab = Inr vocab'" by simp
  with r o show ?thesis by blast
qed

theorem final_vocab_is_replay_witness:
  "learn_bpe (Lines [ustr ''aba'']) 2 =
     (Inr ([(ustr ''a'', ustr ''b''), (ustr ''ab'', ustr ''a'')], [(ustr ''aba </w>'', 1)]),
      Some (ustr ''a b'' @ [10] @ ustr ''ab a'' @ [10])) \<and>
   (\<exists>vocab. read_sentences (Lines [ustr ''aba'']) = Inr vocab \<and>
      replay [(ustr ''a'', ustr ''b''), (ustr ''ab'', ustr ''a'')] vocab = Inr [(ustr ''aba </w>'', 1)] \<and>
      Some (ustr ''a b'' @ [10] @ ustr ''ab a'' @ [10]) =
        Some (rules_text [(ustr ''a'', ustr ''b''), (ustr ''ab'', ustr ''a'')]))"
proof -
  have h: "learn_bpe (Lines [ustr ''aba'']) 2 =
     (Inr ([(ustr ''a'', ustr ''b''), (ustr ''ab'', ustr ''a'')], [(ustr ''aba </w>'', 1)]),
      Some (ustr ''a b'' @ [10] @ ustr ''ab a'' @ [10]))"
    by code_simp
  show ?thesis using h final_vocab_is_replay [OF h] by simp
qed

text \<open>
  Claim C7. When the statistics of the vocabulary reached after \<open>k\<close> rounds are empty and
  \<open>k\<close> is below the budget, training does not raise: it returns the rules and the
  vocabulary of that moment, and the rules are fewer than the budget. The output file
  holds those rules: for each rule, in order, its first symbol, a space (code point 32),
  its second symbol and a newline (code point 10).
\<close>

theorem early_stop:
  assumes "read_sentences f = Inr vocab"
    and "bpe_loop k vocab [] = Inr (bpe_merges, v)"
    and "get_stats v = []"
    and "int k < num_merges"
  shows "learn_bpe f num_merges =
           (Inr (bpe_merges, v), Some (concat (map (\<lambda>p. fst p @ 32 # snd p @ [10]) bpe_merges))) \<and>
         int (length bpe_merges) < num_merges"
proof -
  from assms(4) obtain j where j: "nat num_merges = k + j"
    by (metis le_Suc_ex less_imp_le nat_int nat_mono)
  from bpe_loop_stays [OF assms(2,3), of j] j
  have loop: "bpe_loop (nat num_merges) vocab [] = Inr (bpe_merges, v)" by simp
  from bpe_loop_length [OF assms(2)] assms(4)
  have fewer: "int (length bpe_merges) < num_merges" by simp
  have "rule_line = (\<lambda>p. fst p @ 32 # snd p @ [10])"
    by (rule ext) (simp add: rule_line_def space_def newline_def)
  then have written: "rules_text bpe_merges = concat (map (\<lambda>p. fst p @ 32 # snd p @ [10]) bpe_merges)"
    by (simp add: rules_text_def)
  from loop fewer written assms(1) show ?thesis by (simp add: learn_bpe_def)
qed

theorem early_stop_witness:
  "read_sentences (Lines [ustr ''ab'']) = Inr [(ustr ''a b </w>'', 1)] \<and>
   bpe_loop 2 [(ustr ''a b </w>'', 1)] [] =
     Inr ([(ustr ''a'', ustr ''b''), (ustr ''ab'', ustr ''</w>'')], [(ustr ''ab</w>'', 1)]) \<and>
   get_stats [(ustr ''ab</w>'', 1)] = [] \<and> int 2 < 5 \<and>
   learn_bpe (Lines [ustr ''ab'']) 5 =
     (Inr ([(ustr ''a'', ustr ''b''), (ustr ''ab'', ustr ''</w>'')], [(ustr ''ab</w>'', 1)]),
      Some [97, 32, 98, 10, 97, 98, 32, 60, 47, 119, 62, 10]) \<and>
   int (length [(ustr ''a'', ustr ''b''), (ustr ''ab'', ustr ''</w>'')]) < 5"
proof -
  have h1: "read_sentences (Lines [ustr ''ab'']) = Inr [(ustr ''a b </w>'', 1)]" by code_simp
  have h2: "bpe_loop 2 [(ustr ''a b </w>'', 1)] [] =
     Inr ([(ustr ''a'', ustr ''b''), (ustr ''ab'', ustr ''</w>'')], [(ustr ''ab</w>'', 1)])"
    by code_simp
  have h3: "get_stats [(ustr ''ab</w>'', 1)] = []" by code_simp
  have h4: "int 2 < 5" by simp
  have e: "concat (map (\<lambda>p. fst p @ 32 # snd p @ [10])
             [(ustr ''a'', ustr ''b''), (ustr ''ab'', ustr ''</w>'')]) =
           [97, 32, 98, 10, 97, 98, 32, 60, 47, 119, 62, 10]"
    by (simp add: ustr_def)
  note t = early_stop [OF h1 h2 h3 h4, unfolded e]
  show ?thesis by (intro conjI) (rule h1 h2 h3 h4 t [THEN conjunct1] t [THEN conjunct2])+
qed

section \<open>Pair statistics\<close>

lemma map_of_dict_set: "map_of (dict_set d k v) = (map_of d)(k \<mapsto> v)"
  by (induction d) (auto simp: fun_eq_iff)

lemma keys_dict_set: "fst ` set (dict_set d k v) = insert k (fst ` set d)"
  by (induction d) (force split: if_splits)+

lemma distinct_dict_set: "distinct (map fst d) \<Longrightarrow> distinct (map fst (dict_set d k v))"
  by (induction d) (auto simp: keys_dict_set)

lemma dict_get_add_pair:
  "dict_get (add_pair f p d) q 0 = dict_get d q 0 + (if p = q then f else 0)"
  by (simp add: add_pair_def dict_get_def map_of_dict_set)

lemma dict_get_fold_add_pair:
  "dict_get (fold (add_pair f) ps d) q 0 = dict_get d q 0 + int (count_list ps q) * f"
  by (induction ps arbitrary: d) (auto simp: dict_get_add_pair algebra_simps)

lemma dict_get_fold_add_word:
  "dict_get (fold add_word vocab d) q 0 =
     dict_get d q 0 + sum_list (map (\<lambda>e. int (count_list (adjacent (split_ws (fst e))) q) * snd e) vocab)"
  by (induction vocab arbitrary: d) (auto simp: add_word_def dict_get_fold_add_pair)

lemma keys_fold_add_pair:
  "fst ` set (fold (add_pair f) ps d) = fst ` set d \<union> set ps"
  by (induction ps arbitrary: d) (auto simp: add_pair_def keys_dict_set)

lemma keys_fold_add_word:
  "fst ` set (fold add_word vocab d) =
     fst ` set d \<union> (\<Union>e\<in>set vocab. set (adjacent (split_ws (fst e))))"
  by (induction vocab arbitrary: d) (auto simp: add_word_def keys_fold_add_pair)

lemma distinct_fold_add_pair:
  "distinct (map fst d) \<Longrightarrow> distinct (map fst (fold (add_pair f) ps d))"
  by (induction ps arbitrary: d) (auto simp: add_pair_def distinct_dict_set)

lemma distinct_fold_add_word:
  "distinct (map fst d) \<Longrightarrow> distinct (map fst (fold add_word vocab d))"
  by (induction vocab arbitrary: d) (auto simp: add_word_def distinct_fold_add_pair)

text \<open>
  Claim C2, as the code has it. \<open>get_stats\<close> holds every pair once, and the frequency it
  reports for a pair is the sum, over the entries, of the number of positions at which the
  pair stands in the entry's symbol sequence, overlapping positions included, times the
  entry's count; a pair that stands nowhere is absent.
\<close>

theorem get_stats_counts_adjacent:
  "distinct (map fst (get_stats vocab)) \<and>
   map_of (get_stats vocab) p =
     (if p \<in> (\<Union>e\<in>set vocab. set (adjacent (split_ws (fst e))))
      then Some (sum_list (map (\<lambda>e. int (count_list (adjacent (split_ws (fst e))) p) * snd e) vocab))
      else None)"
proof -
  let ?s = "get_stats vocab"
  have k: "fst ` set ?s = (\<Union>e\<in>set vocab. set (adjacent (split_ws (fst e))))"
    using keys_fold_add_word [of vocab "[]"] by (simp add: get_stats_def)
  have g: "dict_get ?s p 0 =
      sum_list (map (\<lambda>e. int (count_list (adjacent (split_ws (fst e))) p) * snd e) vocab)"
    using dict_get_fold_add_word [of vocab "[]" p] by (simp add: get_stats_def dict_get_def)
  have d: "distinct (map fst ?s)"
    using distinct_fold_add_word [of "[]" vocab] by (simp add: get_stats_def)
  show ?thesis
  proof (cases "p \<in> fst ` set ?s")
    case True
    then obtain v where "map_of ?s p = Some v"
      by (metis domD dom_map_of_conv_image_fst)
    with g True k d show ?thesis by (simp add: dict_get_def)
  next
    case False
    then have "map_of ?s p = None"
      by (simp add: map_of_eq_None_iff)
    with False k d show ?thesis by simp
  qed
qed

theorem get_stats_counts_adjacent_witness:
  "distinct (map fst (get_stats [(ustr ''a a a </w>'', 3), (ustr ''b a a </w>'', 2)])) \<and>
   map_of (get_stats [(ustr ''a a a </w>'', 3), (ustr ''b a a </w>'', 2)]) (ustr ''a'', ustr ''a'') = Some 8"
proof -
  let ?v = "[(ustr ''a a a </w>'', 3::int), (ustr ''b a a </w>'', 2)]"
  let ?p = "(ustr ''a'', ustr ''a'')"
  have h: "?p \<in> (\<Union>e\<in>set ?v. set (adjacent (split_ws (fst e))))"
    by code_simp
  have s: "sum_list (map (\<lambda>e. int (count_list (adjacent (split_ws (fst e))) ?p) * snd e) ?v) = 8"
    by code_simp
  from get_stats_counts_adjacent [of ?v ?p] h s show ?thesis
    by (simp only: if_True)
qed

text \<open>
  Claim C2 as stated fails: in the entry \<open>a a a </w>\<close> with count 1 the pair \<open>(a, a)\<close>
  has one non-overlapping occurrence from the left, and \<open>get_stats\<close> reports 2.
\<close>

theorem get_stats_nonoverlap_counterexample:
  "map_of (get_stats [(ustr ''a a a </w>'', 1)]) (ustr ''a'', ustr ''a'') = Some 2 \<and>
   sum_list (map (\<lambda>e. int (count_nonoverlap (ustr ''a'', ustr ''a'') (split_ws (fst e))) * snd e)
     [(ustr ''a a a </w>'', 1)]) = 1"
  by code_simp

section \<open>The selected pair\<close>

lemma max_from_first:
  "\<exists>pre post. best # xs = pre @ max_from key best xs # post \<and>
     (\<forall>x\<in>set pre. key x < key (max_from key best xs)) \<and>
     (\<forall>x\<in>set post. key x \<le> key (max_from key best xs))"
proof (induction xs arbitrary: best)
  case Nil
  show ?case by (intro exI [of _ "[]"]) simp
next
  case (Cons x xs)
  show ?case
  proof (cases "key best < key x")
    case True
    define m where "m = max_from key x xs"
    from Cons.IH [of x] obtain pre post where
      d: "x # xs = pre @ m # post" and
      l: "\<forall>y\<in>set pre. key y < key m" and r: "\<forall>y\<in>set post. key y \<le> key m"
      unfolding m_def by blast
    have mm: "max_from key best (x # xs) = m" using True by (simp add: m_def)
    have "x \<in> set (x # xs)" by simp
    then have "x \<in> set (pre @ m # post)" by (simp only: d)
    with l r have "key x \<le> key m" by (auto simp: less_imp_le)
    with True have kb: "key best < key m" by simp
    have "best # x # xs = (best # pre) @ m # post" using d by simp
    moreover have "\<forall>y\<in>set (best # pre). key y < key m" using l kb by simp
    ultimately show ?thesis unfolding mm using r by blast
  next
    case False
    define m where "m = max_from key best xs"
    from Cons.IH [of best] obtain pre post where
      d: "best # xs = pre @ m # post" and
      l: "\<forall>y\<in>set pre. key y < key m" and r: "\<forall>y\<in>set post. key y \<le> key m"
      unfolding m_def by blast
    have mm: "max_from key best (x # xs) = m" using False by (simp add: m_def)
    show ?thesis
    proof (cases pre)
      case Nil
      with d have bm: "best = m" and xp: "xs = post" by simp_all
      have "best # x # xs = [] @ m # (x # post)" using bm xp by simp
      moreover have "\<forall>y\<in>set (x # post). key y \<le> key m" using False r bm by auto
      moreover have "\<forall>y\<in>set ([]::'a list). key y < key m" by simp
      ultimately show ?thesis unfolding mm by blast
    next
      case (Cons b pre')
      with d have b: "b = best" and xs: "xs = pre' @ m # post" by simp_all
      from l Cons b have "key best < key m" by simp
      with False have kx: "key x < key m" by simp
      have "best # x # xs = (best # x # pre') @ m # post" using xs by simp
      moreover have "\<forall>y\<in>set (best # x # pre'). key y < key m" using l Cons b kx by simp
      ultimately show ?thesis unfolding mm using r by blast
    qed
  qed
qed

lemma dict_get_distinct:
  "distinct (map fst d) \<Longrightarrow> (k, v) \<in> set d \<Longrightarrow> dict_get d k dflt = v"
  by (simp add: dict_get_def)

text \<open>
  Claim C3, as the code has it. On non-empty statistics \<open>max\<close> returns a pair of maximum
  frequency, and among the pairs of maximum frequency the one that comes first in the
  iteration order of the statistics: every pair before it has a strictly smaller
  frequency, and no pair after it has a greater one.
\<close>

theorem max_key_first_maximum:
  assumes "pairs \<noteq> []" and "distinct (map fst pairs)"
  shows "\<exists>best f pre post. max_key pairs = Inr best \<and> pairs = pre @ (best, f) # post \<and>
           (\<forall>e\<in>set pre. snd e < f) \<and> (\<forall>e\<in>set post. snd e \<le> f)"
proof -
  define key where "key = (\<lambda>p. dict_get pairs p 0)"
  from assms(1) obtain k ks where ks: "map fst pairs = k # ks"
    by (cases pairs) auto
  define m where "m = max_from key k ks"
  have mk: "max_key pairs = Inr m" using ks by (simp add: max_key_def m_def key_def)
  from max_from_first [of k ks key] obtain kpre kpost where
    d: "k # ks = kpre @ m # kpost" and
    l: "\<forall>x\<in>set kpre. key x < key m" and r: "\<forall>x\<in>set kpost. key x \<le> key m"
    unfolding m_def by blast
  from d ks have "map fst pairs = kpre @ (m # kpost)" by simp
  then have "\<exists>us vs. pairs = us @ vs \<and> kpre = map fst us \<and> m # kpost = map fst vs"
    by (simp only: map_eq_append_conv)
  then obtain pre where "\<exists>vs. pairs = pre @ vs \<and> kpre = map fst pre \<and> m # kpost = map fst vs" ..
  then obtain rest where c: "pairs = pre @ rest \<and> kpre = map fst pre \<and> m # kpost = map fst rest" ..
  from c have pr: "pairs = pre @ rest" by (rule conjunct1)
  from c have pre: "kpre = map fst pre" by (rule conjunct2 [THEN conjunct1])
  from c have rest: "m # kpost = map fst rest" by (rule conjunct2 [THEN conjunct2])
  from rest obtain e post where re: "rest = e # post" and
    e: "fst e = m" and post: "kpost = map fst post"
    by (cases rest) auto
  from pr re have p: "pairs = pre @ e # post" by simp
  have val: "key (fst x) = snd x" if "x \<in> set pairs" for x
    using dict_get_distinct [OF assms(2), of "fst x" "snd x" 0] that by (simp add: key_def)
  have ke: "key m = snd e" using val [of e] p e by simp
  have "\<forall>x\<in>set pre. snd x < snd e"
  proof
    fix x assume x: "x \<in> set pre"
    then have "fst x \<in> set kpre" using pre by simp
    with l have "key (fst x) < key m" by blast
    moreover have "key (fst x) = snd x" using val [of x] x p by simp
    ultimately show "snd x < snd e" using ke by simp
  qed
  moreover have "\<forall>x\<in>set post. snd x \<le> snd e"
  proof
    fix x assume x: "x \<in> set post"
    then have "fst x \<in> set kpost" using post by simp
    with r have "key (fst x) \<le> key m" by blast
    moreover have "key (fst x) = snd x" using val [of x] x p by simp
    ultimately show "snd x \<le> snd e" using ke by simp
  qed
  moreover have "pairs = pre @ (m, snd e) # post" using p e by (cases e) simp
  ultimately show ?thesis using mk by blast
qed

theorem max_key_first_maximum_witness:
  "([((ustr ''b'', ustr ''b''), 1), ((ustr ''a'', ustr ''a''), 2), ((ustr ''c'', ustr ''c''), 2)] :: stats) \<noteq> [] \<and>
   distinct (map fst ([((ustr ''b'', ustr ''b''), 1), ((ustr ''a'', ustr ''a''), 2), ((ustr ''c'', ustr ''c''), 2)] :: stats)) \<and>
   (\<exists>best f pre post.
      max_key ([((ustr ''b'', ustr ''b''), 1), ((ustr ''a'', ustr ''a''), 2), ((ustr ''c'', ustr ''c''), 2)] :: stats) = Inr best \<and>
      ([((ustr ''b'', ustr ''b''), 1), ((ustr ''a'', ustr ''a''), 2), ((ustr ''c'', ustr ''c''), 2)] :: stats) = pre @ (best, f) # post \<and>
      (\<forall>e\<in>set pre. snd e < f) \<and> (\<forall>e\<in>set post. snd e \<le> f))"
proof -
  let ?s = "([((ustr ''b'', ustr ''b''), 1), ((ustr ''a'', ustr ''a''), 2), ((ustr ''c'', ustr ''c''), 2)] :: stats)"
  have h1: "?s \<noteq> []" by simp
  have h2: "distinct (map fst ?s)" by code_simp
  show ?thesis by (rule conjI [OF h1 conjI [OF h2 max_key_first_maximum [OF h1 h2]]])
qed

text \<open>
  Claim C3 as stated fails: the selection depends on the iteration order. The corpora
  \<open>b a\<close> and \<open>a b\<close> give the same statistics, the pairs \<open>(a, </w>)\<close> and \<open>(b, </w>)\<close>
  with frequency 1 each, in different insertion orders, and \<open>max\<close> selects \<open>(b, </w>)\<close>
  for the first and \<open>(a, </w>)\<close> for the second; a rule on the symbol texts alone would
  select the same pair for both.
\<close>

theorem max_key_order_counterexample:
  "set (get_stats [(ustr ''b </w>'', 1), (ustr ''a </w>'', 1)]) =
     set (get_stats [(ustr ''a </w>'', 1), (ustr ''b </w>'', 1)]) \<and>
   max_key (get_stats [(ustr ''b </w>'', 1), (ustr ''a </w>'', 1)]) = Inr (ustr ''b'', ustr ''</w>'') \<and>
   max_key (get_stats [(ustr ''a </w>'', 1), (ustr ''b </w>'', 1)]) = Inr (ustr ''a'', ustr ''</w>'')"
  by code_simp

section \<open>Entries that become identical\<close>








section \<open>The end marker\<close>

lemma split_from_free:
  "w \<in> set (split_from cur s) \<Longrightarrow> list_all (\<lambda>c. \<not> isspace c) cur \<Longrightarrow>
     list_all (\<lambda>c. \<not> isspace c) w"
proof (induction s arbitrary: cur)
  case Nil
  then show ?case by (simp split: if_splits)
next
  case (Cons c s)
  show ?case
  proof (cases "isspace c")
    case True
    with Cons.prems(1) have "w = cur \<or> w \<in> set (split_from [] s)"
      by (simp split: if_splits)
    then show ?thesis
    proof
      assume "w = cur"
      with Cons.prems(2) show ?thesis by simp
    next
      assume "w \<in> set (split_from [] s)"
      from Cons.IH [OF this] show ?thesis by simp
    qed
  next
    case False
    with Cons.prems(1) have "w \<in> set (split_from (cur @ [c]) s)" by simp
    moreover from False Cons.prems(2) have "list_all (\<lambda>c. \<not> isspace c) (cur @ [c])" by simp
    ultimately show ?thesis by (rule Cons.IH)
  qed
qed

lemma split_ws_free: "w \<in> set (split_ws s) \<Longrightarrow> \<forall>c\<in>set w. \<not> isspace c"
  using split_from_free [of w "[]" s] by (simp add: split_ws_def list_all_iff)

lemma isspace_space: "isspace space"
  by (simp add: isspace_def space_def)

lemma split_ws_join_sp:
  "\<forall>s\<in>set syms. s \<noteq> [] \<and> (\<forall>c\<in>set s. \<not> isspace c) \<Longrightarrow> split_ws (join_sp syms) = syms"
proof (induction syms rule: join_sp.induct)
  case 1
  show ?case by (simp add: split_ws_def)
next
  case (2 x)
  then show ?case
    using split_from_nonspace [of x "[]" "[]"] by (simp add: split_ws_def)
next
  case (3 x y ys)
  then have "split_from [] (x @ space # join_sp (y # ys)) = x # split_from [] (join_sp (y # ys))"
    using split_from_nonspace [of x "[]" "space # join_sp (y # ys)"] by (simp add: isspace_space)
  with 3 show ?case by (simp add: split_ws_def)
qed

lemma join_sp_snoc: "xs \<noteq> [] \<Longrightarrow> join_sp (xs @ [y]) = join_sp xs @ space # y"
  by (induction xs rule: join_sp.induct) auto

lemma end_marker_free: "\<forall>c\<in>set end_marker. \<not> isspace c"
  by (simp add: end_marker_def isspace_def)

lemma split_ws_tokenized:
  assumes "word \<noteq> []" and "\<forall>c\<in>set word. \<not> isspace c"
  shows "split_ws (tokenized word) = map (\<lambda>c. [c]) word @ [end_marker]"
proof -
  have "tokenized word = join_sp (map (\<lambda>c. [c]) word @ [end_marker])"
    using assms(1) by (simp add: tokenized_def join_sp_snoc)
  moreover have "\<forall>s\<in>set (map (\<lambda>c. [c]) word @ [end_marker]). s \<noteq> [] \<and> (\<forall>c\<in>set s. \<not> isspace c)"
    using assms(2) end_marker_free by (auto simp: end_marker_def)
  ultimately show ?thesis by (simp only: split_ws_join_sp)
qed

lemma keys_count_words:
  "k \<in> fst ` set (count_words vocab ws) \<Longrightarrow>
     k \<in> fst ` set vocab \<or> (\<exists>w\<in>set ws. k = tokenized w)"
proof (induction ws arbitrary: vocab)
  case Nil
  then show ?case by simp
next
  case (Cons a ws)
  show ?case
  proof (cases "a = []")
    case True
    with Cons.prems have "k \<in> fst ` set (count_words vocab ws)" by simp
    from Cons.IH [OF this] show ?thesis by auto
  next
    case False
    define v where "v = dict_set vocab (tokenized a) (dict_get vocab (tokenized a) 0 + 1)"
    from False Cons.prems have "k \<in> fst ` set (count_words v ws)" by (simp add: v_def)
    from Cons.IH [OF this] have "k \<in> fst ` set v \<or> (\<exists>w\<in>set ws. k = tokenized w)" .
    moreover have "fst ` set v = insert (tokenized a) (fst ` set vocab)"
      unfolding v_def by (rule keys_dict_set)
    ultimately show ?thesis by auto
  qed
qed

lemma keys_count_lines:
  "k \<in> fst ` set (count_lines vocab ls) \<Longrightarrow>
     k \<in> fst ` set vocab \<or> (\<exists>l\<in>set ls. \<exists>w\<in>set (split_ws l). k = tokenized w)"
proof (induction ls arbitrary: vocab)
  case Nil
  then show ?case by simp
next
  case (Cons l ls)
  show ?case
  proof (cases "strip l = []")
    case True
    with Cons.prems have "k \<in> fst ` set (count_lines vocab ls)" by simp
    from Cons.IH [OF this] show ?thesis by auto
  next
    case False
    define v where "v = count_words vocab (split_ws l)"
    from False Cons.prems have "k \<in> fst ` set (count_lines v ls)"
      by (simp add: v_def split_ws_strip)
    from Cons.IH [OF this]
    have "k \<in> fst ` set v \<or> (\<exists>l\<in>set ls. \<exists>w\<in>set (split_ws l). k = tokenized w)" .
    moreover have "k \<in> fst ` set v \<Longrightarrow> k \<in> fst ` set vocab \<or> (\<exists>w\<in>set (split_ws l). k = tokenized w)"
      unfolding v_def by (rule keys_count_words)
    ultimately show ?thesis by auto
  qed
qed

lemma initial_entries_end_marker:
  assumes "read_sentences (Lines ls) = Inr vocab" and "(k, f) \<in> set vocab"
  shows "\<exists>word. word \<noteq> [] \<and> split_ws k = map (\<lambda>c. [c]) word @ [end_marker] \<and>
           end_marker \<notin> set (map (\<lambda>c. [c]) word)"
proof -
  from assms(1) have v: "vocab = count_lines [] ls"
    by (auto simp: read_sentences_def Let_def split: if_splits)
  from assms(2) have "k \<in> fst ` set vocab" by force
  with v have "k \<in> fst ` set (count_lines [] ls)" by simp
  from keys_count_lines [OF this]
  obtain l word where l: "l \<in> set ls" and w: "word \<in> set (split_ws l)" and k: "k = tokenized word"
    by auto
  from w have ne: "word \<noteq> []" and fr: "\<forall>c\<in>set word. \<not> isspace c"
    by (auto dest: split_ws_nonempty split_ws_free)
  have "end_marker \<notin> set (map (\<lambda>c. [c]) word)"
    by (auto simp: end_marker_def)
  with split_ws_tokenized [OF ne fr] ne k show ?thesis by blast
qed

section \<open>The substitution on well-formed keys\<close>

lemma nospace_simps [simp]:
  "nospace []" "nospace (c # s) \<longleftrightarrow> \<not> isspace c \<and> nospace s"
  "nospace (s @ t) \<longleftrightarrow> nospace s \<and> nospace t"
  by (auto simp: nospace_def)

lemma nospace_not_space: "nospace s \<Longrightarrow> space \<notin> set s"
  by (induction s) (auto simp: isspace_space)

lemma parse_template_literal: "backslash \<notin> set s \<Longrightarrow> parse_template s = Inr (map Lit s)"
  by (induction s) (simp_all add: template_step_def)

lemma expand_template_literal: "expand_template (map Lit s) m = s"
  by (induction s) (simp_all add: expand_template_def)

lemma pattern_sub_literal:
  "backslash \<notin> set (x @ y) \<Longrightarrow> pattern_sub (x, y) word = Inr (sub_scan x y (x @ y) True word)"
proof -
  assume "backslash \<notin> set (x @ y)"
  then have "parse_template (x @ y) = Inr (map Lit (x @ y))" by (rule parse_template_literal)
  then show ?thesis by (simp add: pattern_sub_def expand_template_literal del: map_append)
qed

lemma match_here_space: "match_here (x @ space # y) bnd s \<Longrightarrow> space \<in> set s"
proof -
  assume "match_here (x @ space # y) bnd s"
  then have "take (length (x @ space # y)) s = x @ space # y" by (simp add: match_here_def)
  then have "space \<in> set (take (length (x @ space # y)) s)" by simp
  then show ?thesis by (rule in_set_takeD)
qed

lemma sub_scan_no_space: "space \<notin> set s \<Longrightarrow> sub_scan x y r bnd s = s"
proof (induction s arbitrary: bnd)
  case Nil
  show ?case by simp
next
  case (Cons c cs)
  from Cons.prems have "\<not> match_here (x @ space # y) bnd (c # cs)"
    using match_here_space by blast
  moreover from Cons.prems have "sub_scan x y r (isspace c) cs = cs"
    by (intro Cons.IH) simp
  ultimately show ?case by simp
qed

lemma sub_scan_skip:
  "nospace w \<Longrightarrow> sub_scan x y r False (w @ space # t) = w @ space # sub_scan x y r True t"
proof (induction w)
  case Nil
  have "\<not> match_here (x @ space # y) False (space # t)" by (simp add: match_here_def)
  then show ?case by (simp add: isspace_space)
next
  case (Cons c w)
  have "\<not> match_here (x @ space # y) False (c # w @ space # t)" by (simp add: match_here_def)
  with Cons show ?case by simp
qed

lemma first_separator:
  "nospace u \<Longrightarrow> nospace u' \<Longrightarrow> isspace s1 \<Longrightarrow> isspace s2 \<Longrightarrow>
     u @ s1 # v = u' @ s2 # v' \<Longrightarrow> u = u' \<and> v = v'"
proof (induction u arbitrary: u')
  case Nil
  then show ?case by (cases u') auto
next
  case (Cons c u)
  show ?case
  proof (cases u')
    case Nil
    with Cons.prems show ?thesis by auto
  next
    case (Cons c' w')
    with Cons.prems have "c = c'" and e: "u @ s1 # v = w' @ s2 # v'" and "nospace u" "nospace w'"
      by simp_all
    from Cons.IH [OF \<open>nospace u\<close> \<open>nospace w'\<close> Cons.prems(3,4) e] \<open>c = c'\<close> Cons
    show ?thesis by simp
  qed
qed

lemma match_here_iff:
  assumes "nospace a" "nospace b" "nospace x" "nospace y" "tail_ok t"
  shows "match_here (x @ space # y) True (a @ space # b @ t) \<longleftrightarrow> a = x \<and> b = y"
proof
  assume m: "match_here (x @ space # y) True (a @ space # b @ t)"
  define n where "n = length (x @ space # y)"
  define s where "s = a @ space # b @ t"
  define rem where "rem = drop n s"
  from m have tk: "take n s = x @ space # y"
    and la: "case rem of [] \<Rightarrow> True | d # _ \<Rightarrow> isspace d"
    by (simp_all add: match_here_def n_def s_def rem_def)
  have "s = take n s @ rem" by (simp add: rem_def)
  with tk have "a @ space # (b @ t) = x @ space # (y @ rem)" by (simp add: s_def)
  from first_separator [OF assms(1,3) isspace_space isspace_space this]
  have ax: "a = x" and bt: "b @ t = y @ rem" by simp_all
  have "b = y"
  proof (cases rem)
    case Nil
    with bt have "b @ t = y" by simp
    show ?thesis
    proof (cases t)
      case Nil
      with \<open>b @ t = y\<close> show ?thesis by simp
    next
      case (Cons d t')
      with assms(5) have "d = space" by (simp add: tail_ok_def)
      with Cons \<open>b @ t = y\<close> have "y = b @ space # t'" by simp
      with assms(4) show ?thesis by (simp add: isspace_space)
    qed
  next
    case (Cons d rem')
    with la have d: "isspace d" by simp
    show ?thesis
    proof (cases t)
      case Nil
      with bt Cons have "b = y @ d # rem'" by simp
      with assms(2) d show ?thesis by simp
    next
      case (Cons e t')
      with assms(5) have "e = space" by (simp add: tail_ok_def)
      with Cons bt \<open>rem = d # rem'\<close> have "b @ space # t' = y @ d # rem'" by simp
      from first_separator [OF assms(2,4) isspace_space d this] show ?thesis by simp
    qed
  qed
  with ax show "a = x \<and> b = y" by simp
next
  assume "a = x \<and> b = y"
  then have s: "a @ space # b @ t = (x @ space # y) @ t" by simp
  have "case t of [] \<Rightarrow> True | d # _ \<Rightarrow> isspace d"
    using assms(5) by (auto simp: tail_ok_def isspace_space split: list.splits)
  then show "match_here (x @ space # y) True (a @ space # b @ t)"
    unfolding s match_here_def by simp
qed

lemma wf_syms_simps [simp]:
  "wf_syms []" "wf_syms (s # syms) \<longleftrightarrow> s \<noteq> [] \<and> nospace s \<and> wf_syms syms"
  by (auto simp: wf_syms_def)

lemma join_sp_Cons: "join_sp (b # rest) = b @ (if rest = [] then [] else space # join_sp rest)"
  by (cases rest) simp_all

lemma tail_ok_join: "tail_ok (if rest = [] then [] else space # join_sp rest)"
  by (simp add: tail_ok_def)

lemma merge_symbols_empty: "merge_symbols p syms = [] \<longleftrightarrow> syms = []"
  by (induction p syms rule: merge_symbols.induct) auto

lemma sub_scan_join:
  assumes "x \<noteq> []" "nospace x" "y \<noteq> []" "nospace y"
  shows "wf_syms syms \<Longrightarrow>
     sub_scan x y (x @ y) True (join_sp syms) = join_sp (merge_symbols (x, y) syms)"
proof (induction "(x, y)" syms rule: merge_symbols.induct)
  case (1 a b rest)
  define t where "t = (if rest = [] then [] else space # join_sp rest)"
  have key: "join_sp (a # b # rest) = a @ space # b @ t"
    by (simp add: t_def join_sp_Cons)
  from 1(3) have wa: "a \<noteq> []" "nospace a" and wb: "b \<noteq> []" "nospace b" and wr: "wf_syms rest"
    by simp_all
  have mh: "match_here (x @ space # y) True (a @ space # b @ t) \<longleftrightarrow> a = x \<and> b = y"
    unfolding t_def by (rule match_here_iff [OF wa(2) wb(2) assms(2,4) tail_ok_join])
  obtain c a' where a: "a = c # a'" using wa(1) by (cases a) auto
  show ?case
  proof (cases "(a, b) = (x, y)")
    case True
    then have ab: "a = x" "b = y" by simp_all
    have nl: "isspace (last (space # y)) = False"
      using assms(3,4) by (cases y rule: rev_cases) simp_all
    have dr: "drop (length x + length y) (a' @ space # b @ t) = t"
      using a ab by (cases x) simp_all
    from mh True have m1: "match_here (x @ space # y) True (c # (a' @ space # b @ t))"
      by (simp add: a)
    then have "sub_scan x y (x @ y) True (c # (a' @ space # b @ t)) =
        (x @ y) @ sub_scan x y (x @ y) (isspace (last (space # y)))
          (drop (length x + length y) (a' @ space # b @ t))"
      by (simp only: sub_scan.simps(2) if_True)
    then have scan: "sub_scan x y (x @ y) True (a @ space # b @ t) =
        (x @ y) @ sub_scan x y (x @ y) False t"
      unfolding nl dr by (simp add: a)
    have rest: "sub_scan x y (x @ y) False t =
        (if rest = [] then [] else space # join_sp (merge_symbols (x, y) rest))"
    proof (cases "rest = []")
      case True
      then show ?thesis by (simp add: t_def)
    next
      case False
      have "sub_scan x y (x @ y) False ([] @ space # join_sp rest) =
          [] @ space # sub_scan x y (x @ y) True (join_sp rest)"
        by (rule sub_scan_skip) simp
      with False 1(1) [OF True wr] show ?thesis by (simp add: t_def)
    qed
    have "join_sp (merge_symbols (x, y) (a # b # rest)) =
        (x @ y) @ (if rest = [] then [] else space # join_sp (merge_symbols (x, y) rest))"
      using True by (simp add: join_sp_Cons merge_symbols_empty)
    with scan rest key show ?thesis by simp
  next
    case False
    with mh have nm: "\<not> match_here (x @ space # y) True (c # a' @ space # b @ t)"
      by (simp add: a)
    from wa(2) a have na': "nospace a'" and nc: "\<not> isspace c" by simp_all
    have "sub_scan x y (x @ y) True (c # a' @ space # b @ t) =
        c # sub_scan x y (x @ y) False (a' @ space # b @ t)"
      using nm nc by simp
    also have "sub_scan x y (x @ y) False (a' @ space # b @ t) =
        a' @ space # sub_scan x y (x @ y) True (b @ t)"
      by (rule sub_scan_skip [OF na'])
    also have "b @ t = join_sp (b # rest)" by (simp add: t_def join_sp_Cons)
    also have "sub_scan x y (x @ y) True (join_sp (b # rest)) =
        join_sp (merge_symbols (x, y) (b # rest))"
      using 1(2) [OF False] wb wr by simp
    finally have sc: "sub_scan x y (x @ y) True (join_sp (a # b # rest)) =
        a @ space # join_sp (merge_symbols (x, y) (b # rest))"
      by (simp add: key a)
    have ms: "merge_symbols (x, y) (a # b # rest) = a # merge_symbols (x, y) (b # rest)"
      using False by (simp only: merge_symbols.simps if_False)
    have jm: "join_sp (merge_symbols (x, y) (a # b # rest)) =
        a @ space # join_sp (merge_symbols (x, y) (b # rest))"
      unfolding ms by (simp add: join_sp_Cons [of a] merge_symbols_empty)
    from sc jm show ?thesis by simp
  qed
next
  case 2
  show ?case by simp
next
  case (3 v)
  then have "space \<notin> set v" by (simp add: nospace_not_space)
  then show ?case by (simp add: sub_scan_no_space)
qed

lemma wf_syms_split_ws: "wf_syms (split_ws k)"
  using split_ws_nonempty [of _ k] split_ws_free [of _ k]
  by (auto simp: wf_syms_def nospace_def list_all_iff)

lemma pattern_sub_symbols:
  assumes "x \<noteq> []" "nospace x" "y \<noteq> []" "nospace y" "backslash \<notin> set (x @ y)" "wf_key k"
  shows "pattern_sub (x, y) k = Inr (join_sp (merge_symbols (x, y) (split_ws k)))"
proof -
  have "sub_scan x y (x @ y) True (join_sp (split_ws k)) =
      join_sp (merge_symbols (x, y) (split_ws k))"
    by (rule sub_scan_join [OF assms(1-4) wf_syms_split_ws])
  with assms(6) have "sub_scan x y (x @ y) True k = join_sp (merge_symbols (x, y) (split_ws k))"
    by (simp add: wf_key_def)
  with pattern_sub_literal [OF assms(5), of k] show ?thesis by simp
qed

lemma merge_entries_symbols:
  assumes "x \<noteq> []" "nospace x" "y \<noteq> []" "nospace y" "backslash \<notin> set (x @ y)"
  shows "list_all (\<lambda>e. wf_key (fst e)) vocab \<Longrightarrow>
     merge_entries (x, y) vocab acc =
       Inr (fold (\<lambda>e vocab_new.
              dict_set vocab_new (join_sp (merge_symbols (x, y) (split_ws (fst e)))) (snd e))
            vocab acc)"
proof (induction vocab arbitrary: acc)
  case Nil
  show ?case by simp
next
  case (Cons e vocab)
  obtain k f where e: "e = (k, f)" by (cases e)
  from Cons.prems e have k: "wf_key k" and r: "list_all (\<lambda>e. wf_key (fst e)) vocab"
    by simp_all
  from pattern_sub_symbols [OF assms k] Cons.IH [OF r] e show ?case by simp
qed

text \<open>
  On well-formed keys and a pair of two symbols without backslash the regex substitution
  is the rewrite on the symbol sequences: what claim C5 says holds there.
\<close>

theorem merge_vocab_by_symbols:
  assumes "x \<noteq> []" "nospace x" "y \<noteq> []" "nospace y" "backslash \<notin> set (x @ y)"
    and "list_all (\<lambda>e. wf_key (fst e)) vocab"
  shows "merge_vocab (x, y) vocab = Inr (rewrite_by_symbols (x, y) vocab)"
  unfolding merge_vocab_def rewrite_by_symbols_def
  by (rule merge_entries_symbols [OF assms])

theorem merge_vocab_by_symbols_witness:
  "ustr ''a'' \<noteq> [] \<and> nospace (ustr ''a'') \<and> ustr ''b'' \<noteq> [] \<and> nospace (ustr ''b'') \<and>
   backslash \<notin> set (ustr ''a'' @ ustr ''b'') \<and>
   list_all (\<lambda>e. wf_key (fst e)) [(ustr ''a b a b </w>'', 2), (ustr ''b a b </w>'', 1::int)] \<and>
   merge_vocab (ustr ''a'', ustr ''b'') [(ustr ''a b a b </w>'', 2), (ustr ''b a b </w>'', 1)] =
     Inr (rewrite_by_symbols (ustr ''a'', ustr ''b'')
            [(ustr ''a b a b </w>'', 2), (ustr ''b a b </w>'', 1)]) \<and>
   rewrite_by_symbols (ustr ''a'', ustr ''b'') [(ustr ''a b a b </w>'', 2), (ustr ''b a b </w>'', 1)] =
     [(ustr ''ab ab </w>'', 2), (ustr ''b ab </w>'', 1)]"
proof -
  have h1: "ustr ''a'' \<noteq> []" by code_simp
  have h2: "nospace (ustr ''a'')" by code_simp
  have h3: "ustr ''b'' \<noteq> []" by code_simp
  have h4: "nospace (ustr ''b'')" by code_simp
  have h5: "backslash \<notin> set (ustr ''a'' @ ustr ''b'')" by code_simp
  have h6: "list_all (\<lambda>e. wf_key (fst e)) [(ustr ''a b a b </w>'', 2), (ustr ''b a b </w>'', 1::int)]"
    by code_simp
  have v: "rewrite_by_symbols (ustr ''a'', ustr ''b'') [(ustr ''a b a b </w>'', 2), (ustr ''b a b </w>'', 1)] =
     [(ustr ''ab ab </w>'', 2), (ustr ''b ab </w>'', 1)]"
    by code_simp
  note t = merge_vocab_by_symbols [OF h1 h2 h3 h4 h5 h6]
  show ?thesis by (intro conjI) (rule h1 h2 h3 h4 h5 h6 t v)+
qed

lemma length_merge_symbols:
  "length (merge_symbols p syms) + count_nonoverlap p syms = length syms"
  by (induction p syms rule: merge_symbols.induct) simp_all

lemma merge_symbols_absent: "count_nonoverlap p syms = 0 \<Longrightarrow> merge_symbols p syms = syms"
  by (induction p syms rule: merge_symbols.induct) (simp_all split: if_splits)

lemma wf_syms_merge: "wf_syms syms \<Longrightarrow> wf_syms (merge_symbols p syms)"
  by (induction p syms rule: merge_symbols.induct) simp_all

lemma adjacent_simps [simp]:
  "adjacent [] = []" "adjacent [a] = []" "adjacent (a # b # r) = (a, b) # adjacent (b # r)"
  by (simp_all add: adjacent_def)

lemma merge_symbols_head:
  "\<exists>m. merge_symbols (x, y) (b # rest) = b # m \<or> merge_symbols (x, y) (b # rest) = (x @ y) # m"
  by (cases rest) auto

lemma merge_symbols_removes:
  assumes "x \<noteq> []" "y \<noteq> []"
  shows "(x, y) \<notin> set (adjacent (merge_symbols (x, y) syms))"
proof (induction "(x, y)" syms rule: merge_symbols.induct)
  case (1 a b rest)
  show ?case
  proof (cases "(a, b) = (x, y)")
    case True
    define M where "M = merge_symbols (x, y) rest"
    have r: "merge_symbols (x, y) (a # b # rest) = (x @ y) # M" using True by (simp add: M_def)
    have ih: "(x, y) \<notin> set (adjacent M)" unfolding M_def by (rule 1(1) [OF True])
    show ?thesis unfolding r using ih assms by (cases M) simp_all
  next
    case False
    define M where "M = merge_symbols (x, y) (b # rest)"
    have r: "merge_symbols (x, y) (a # b # rest) = a # M"
      using False by (simp only: merge_symbols.simps if_False M_def)
    have ih: "(x, y) \<notin> set (adjacent M)" unfolding M_def by (rule 1(2) [OF False])
    from merge_symbols_head [of x y b rest] obtain m where "M = b # m \<or> M = (x @ y) # m"
      unfolding M_def by blast
    then show ?thesis
    proof
      assume "M = b # m"
      with ih False show ?thesis unfolding r by auto
    next
      assume "M = (x @ y) # m"
      with ih assms show ?thesis unfolding r by auto
    qed
  qed
next
  case 2
  show ?case by simp
next
  case (3 v)
  show ?case by simp
qed

lemma keys_fold_dict_set:
  "fst ` set (fold (\<lambda>e d. dict_set d (g e) (h e)) es acc) = fst ` set acc \<union> g ` set es"
proof (induction es arbitrary: acc)
  case Nil
  show ?case by simp
next
  case (Cons e es)
  define A where "A = fst ` set acc"
  define B where "B = g ` set es"
  have "fst ` set (fold (\<lambda>e d. dict_set d (g e) (h e)) (e # es) acc) =
      fst ` set (dict_set acc (g e) (h e)) \<union> B"
    by (simp add: Cons.IH B_def)
  also have "\<dots> = insert (g e) A \<union> B" by (simp only: keys_dict_set A_def)
  also have "\<dots> = A \<union> insert (g e) B" by blast
  finally show ?case by (simp add: A_def B_def)
qed

lemma split_ws_merged:
  "wf_syms syms \<Longrightarrow> split_ws (join_sp (merge_symbols p syms)) = merge_symbols p syms"
proof -
  assume "wf_syms syms"
  then have "wf_syms (merge_symbols p syms)" by (rule wf_syms_merge)
  then have "\<forall>s\<in>set (merge_symbols p syms). s \<noteq> [] \<and> (\<forall>c\<in>set s. \<not> isspace c)"
    by (simp add: wf_syms_def nospace_def list_all_iff)
  then show ?thesis by (rule split_ws_join_sp)
qed

text \<open>
  On well-formed keys and a pair of two symbols without backslash the rewrite does what
  claim C6 says: every entry is rewritten to a key of the new vocabulary that is shorter
  by one symbol per non-overlapping occurrence of the pair and is the entry itself when
  the pair does not occur, and the statistics of the new vocabulary do not hold the pair.
\<close>

theorem rewrite_shortens_and_removes:
  assumes "x \<noteq> []" "nospace x" "y \<noteq> []" "nospace y" "backslash \<notin> set (x @ y)"
    and "list_all (\<lambda>e. wf_key (fst e)) vocab"
  shows "\<exists>vocab'. merge_vocab (x, y) vocab = Inr vocab' \<and>
     (\<forall>e\<in>set vocab. \<exists>k'. pattern_sub (x, y) (fst e) = Inr k' \<and> k' \<in> fst ` set vocab' \<and>
        length (split_ws k') + count_nonoverlap (x, y) (split_ws (fst e)) = length (split_ws (fst e)) \<and>
        (count_nonoverlap (x, y) (split_ws (fst e)) = 0 \<longrightarrow> k' = fst e)) \<and>
     (x, y) \<notin> fst ` set (get_stats vocab')"
proof -
  define g where "g = (\<lambda>e::str \<times> int. join_sp (merge_symbols (x, y) (split_ws (fst e))))"
  define vocab' where "vocab' = rewrite_by_symbols (x, y) vocab"
  have mv: "merge_vocab (x, y) vocab = Inr vocab'"
    unfolding vocab'_def by (rule merge_vocab_by_symbols [OF assms])
  have keys: "fst ` set vocab' = g ` set vocab"
    unfolding vocab'_def rewrite_by_symbols_def g_def
    using keys_fold_dict_set [of "\<lambda>e. join_sp (merge_symbols (x, y) (split_ws (fst e)))" snd vocab "[]"]
    by simp
  have sp: "split_ws (g e) = merge_symbols (x, y) (split_ws (fst e))" for e
    unfolding g_def by (rule split_ws_merged [OF wf_syms_split_ws])
  have each: "\<exists>k'. pattern_sub (x, y) (fst e) = Inr k' \<and> k' \<in> fst ` set vocab' \<and>
        length (split_ws k') + count_nonoverlap (x, y) (split_ws (fst e)) = length (split_ws (fst e)) \<and>
        (count_nonoverlap (x, y) (split_ws (fst e)) = 0 \<longrightarrow> k' = fst e)"
    if e: "e \<in> set vocab" for e
  proof -
    from assms(6) e have wk: "wf_key (fst e)" by (simp add: list_all_iff)
    have p: "pattern_sub (x, y) (fst e) = Inr (g e)"
      unfolding g_def by (rule pattern_sub_symbols [OF assms(1-5) wk])
    have m: "g e \<in> fst ` set vocab'" using e keys by blast
    have l: "length (split_ws (g e)) + count_nonoverlap (x, y) (split_ws (fst e)) =
        length (split_ws (fst e))"
      unfolding sp by (rule length_merge_symbols)
    have u: "g e = fst e" if "count_nonoverlap (x, y) (split_ws (fst e)) = 0"
      using merge_symbols_absent [OF that] wk by (simp add: g_def wf_key_def)
    show ?thesis by (rule exI [of _ "g e"]) (simp add: p m l u)
  qed
  have nk: "(x, y) \<notin> fst ` set (get_stats vocab')"
  proof
    assume "(x, y) \<in> fst ` set (get_stats vocab')"
    then have "(x, y) \<in> (\<Union>e\<in>set vocab'. set (adjacent (split_ws (fst e))))"
      using keys_fold_add_word [of vocab' "[]"] by (simp add: get_stats_def)
    then obtain e' where e': "e' \<in> set vocab'" and a: "(x, y) \<in> set (adjacent (split_ws (fst e')))"
      by blast
    from e' have "fst e' \<in> fst ` set vocab'" by (rule imageI)
    with keys obtain e where "fst e' = g e" by blast
    with a sp have "(x, y) \<in> set (adjacent (merge_symbols (x, y) (split_ws (fst e))))" by simp
    with merge_symbols_removes [OF assms(1,3)] show False by blast
  qed
  have all: "\<forall>e\<in>set vocab. \<exists>k'. pattern_sub (x, y) (fst e) = Inr k' \<and> k' \<in> fst ` set vocab' \<and>
        length (split_ws k') + count_nonoverlap (x, y) (split_ws (fst e)) = length (split_ws (fst e)) \<and>
        (count_nonoverlap (x, y) (split_ws (fst e)) = 0 \<longrightarrow> k' = fst e)"
    by (rule ballI) (rule each)
  show ?thesis by (rule exI [of _ vocab'], intro conjI) (rule mv all nk)+
qed

theorem rewrite_shortens_and_removes_witness:
  "ustr ''a'' \<noteq> [] \<and> nospace (ustr ''a'') \<and> nospace (ustr ''a'') \<and>
   backslash \<notin> set (ustr ''a'' @ ustr ''a'') \<and>
   list_all (\<lambda>e. wf_key (fst e)) [(ustr ''a a a </w>'', 2), (ustr ''b </w>'', 1::int)] \<and>
   (\<exists>vocab'. merge_vocab (ustr ''a'', ustr ''a'') [(ustr ''a a a </w>'', 2), (ustr ''b </w>'', 1)] = Inr vocab' \<and>
     (\<forall>e\<in>set [(ustr ''a a a </w>'', 2), (ustr ''b </w>'', 1::int)].
        \<exists>k'. pattern_sub (ustr ''a'', ustr ''a'') (fst e) = Inr k' \<and> k' \<in> fst ` set vocab' \<and>
          length (split_ws k') + count_nonoverlap (ustr ''a'', ustr ''a'') (split_ws (fst e)) =
            length (split_ws (fst e)) \<and>
          (count_nonoverlap (ustr ''a'', ustr ''a'') (split_ws (fst e)) = 0 \<longrightarrow> k' = fst e)) \<and>
     (ustr ''a'', ustr ''a'') \<notin> fst ` set (get_stats vocab'))"
proof -
  have h1: "ustr ''a'' \<noteq> []" by code_simp
  have h2: "nospace (ustr ''a'')" by code_simp
  have h5: "backslash \<notin> set (ustr ''a'' @ ustr ''a'')" by code_simp
  have h6: "list_all (\<lambda>e. wf_key (fst e)) [(ustr ''a a a </w>'', 2), (ustr ''b </w>'', 1::int)]"
    by code_simp
  note t = rewrite_shortens_and_removes [OF h1 h2 h1 h2 h5 h6]
  show ?thesis by (intro conjI) (rule h1 h2 h5 h6 t)+
qed

section \<open>Runs on a corpus without backslash\<close>

lemma ends_marker_iff: "ends_marker s \<longleftrightarrow> (\<exists>pre. s = pre @ end_marker)"
proof
  assume "ends_marker s"
  then have "s = take (length s - length end_marker) s @ end_marker"
    by (metis append_take_drop_id ends_marker_def)
  then show "\<exists>pre. s = pre @ end_marker" ..
next
  assume "\<exists>pre. s = pre @ end_marker"
  then obtain pre where "s = pre @ end_marker" ..
  then show "ends_marker s" by (simp add: ends_marker_def)
qed

lemma set_join_sp: "c \<in> set (join_sp syms) \<Longrightarrow> c = space \<or> (\<exists>s\<in>set syms. c \<in> set s)"
  by (induction syms rule: join_sp.induct) auto

lemma set_join_sp_sym: "s \<in> set syms \<Longrightarrow> c \<in> set s \<Longrightarrow> c \<in> set (join_sp syms)"
  by (induction syms rule: join_sp.induct) auto

lemma set_merge_symbols:
  "s \<in> set (merge_symbols p syms) \<Longrightarrow> c \<in> set s \<Longrightarrow> \<exists>s'\<in>set syms. c \<in> set s'"
  by (induction p syms rule: merge_symbols.induct) (auto split: if_splits)

lemma last_merge_symbols:
  "syms \<noteq> [] \<Longrightarrow> \<exists>pre. last (merge_symbols p syms) = pre @ last syms"
proof (induction p syms rule: merge_symbols.induct)
  case (1 p a b rest)
  show ?case
  proof (cases "(a, b) = p")
    case True
    show ?thesis
    proof (cases "rest = []")
      case True
      with \<open>(a, b) = p\<close> show ?thesis by simp
    next
      case False
      with 1(1) [OF \<open>(a, b) = p\<close>] obtain pre where "last (merge_symbols p rest) = pre @ last rest"
        by blast
      with False \<open>(a, b) = p\<close> show ?thesis by (simp add: merge_symbols_empty)
    qed
  next
    case False
    from 1(2) [OF False] obtain pre where "last (merge_symbols p (b # rest)) = pre @ last (b # rest)"
      by blast
    with False show ?thesis by (simp add: merge_symbols_empty)
  qed
next
  case (2 p)
  then show ?case by simp
next
  case (3 p v)
  show ?case by simp
qed

lemma entry_ok_rewrite:
  assumes "entry_ok k"
  shows "entry_ok (join_sp (merge_symbols p (split_ws k)))"
proof -
  define syms where "syms = split_ws k"
  define M where "M = merge_symbols p syms"
  from assms have wk: "join_sp syms = k" and bs: "backslash \<notin> set k" and ne: "syms \<noteq> []"
    and em: "ends_marker (last syms)"
    by (simp_all add: entry_ok_def wf_key_def syms_def)
  have ws: "wf_syms syms" unfolding syms_def by (rule wf_syms_split_ws)
  have sp: "split_ws (join_sp M) = M" unfolding M_def by (rule split_ws_merged [OF ws])
  have 1: "wf_key (join_sp M)" by (simp add: wf_key_def sp)
  have 2: "backslash \<notin> set (join_sp M)"
  proof
    assume "backslash \<in> set (join_sp M)"
    from set_join_sp [OF this] have "\<exists>s\<in>set M. backslash \<in> set s"
      by (simp add: backslash_def space_def)
    then obtain s where "s \<in> set M" "backslash \<in> set s" ..
    from set_merge_symbols [OF this [unfolded M_def]]
    obtain s' where "s' \<in> set syms" "backslash \<in> set s'" ..
    from set_join_sp_sym [OF this] wk bs show False by simp
  qed
  have 3: "M \<noteq> []" using ne by (simp add: M_def merge_symbols_empty)
  from last_merge_symbols [OF ne, of p] obtain pre where "last M = pre @ last syms"
    unfolding M_def ..
  moreover from em obtain pre' where "last syms = pre' @ end_marker"
    unfolding ends_marker_iff ..
  ultimately have "last M = (pre @ pre') @ end_marker" by simp
  then have 4: "ends_marker (last M)" unfolding ends_marker_iff ..
  from 1 2 3 4 have "entry_ok (join_sp M)" by (simp add: entry_ok_def sp)
  then show ?thesis by (simp add: M_def syms_def)
qed

lemma split_from_chars:
  "w \<in> set (split_from cur s) \<Longrightarrow> c \<in> set w \<Longrightarrow> c \<in> set cur \<or> c \<in> set s"
proof (induction s arbitrary: cur)
  case Nil
  then show ?case by (simp split: if_splits)
next
  case (Cons d s)
  show ?case
  proof (cases "isspace d")
    case True
    with Cons.prems(1) have "w = cur \<or> w \<in> set (split_from [] s)"
      by (simp split: if_splits)
    then show ?thesis
    proof
      assume "w = cur"
      with Cons.prems(2) show ?thesis by simp
    next
      assume "w \<in> set (split_from [] s)"
      from Cons.IH [OF this Cons.prems(2)] show ?thesis by simp
    qed
  next
    case False
    with Cons.prems(1) have "w \<in> set (split_from (cur @ [d]) s)" by simp
    from Cons.IH [OF this Cons.prems(2)] show ?thesis by auto
  qed
qed

lemma split_ws_chars: "w \<in> set (split_ws s) \<Longrightarrow> c \<in> set w \<Longrightarrow> c \<in> set s"
  using split_from_chars [of w "[]" s c] by (simp add: split_ws_def)

lemma max_from_mem: "max_from key b xs \<in> set (b # xs)"
  by (induction xs arbitrary: b) (simp_all, blast)

lemma max_key_mem: "pairs \<noteq> [] \<Longrightarrow> \<exists>best. max_key pairs = Inr best \<and> best \<in> fst ` set pairs"
proof -
  assume "pairs \<noteq> []"
  then obtain k ks where ks: "map fst pairs = k # ks" by (cases pairs) auto
  have "max_from (\<lambda>p. dict_get pairs p 0) k ks \<in> set (k # ks)" by (rule max_from_mem)
  then have "max_from (\<lambda>p. dict_get pairs p 0) k ks \<in> set (map fst pairs)" by (simp only: ks)
  then have "max_from (\<lambda>p. dict_get pairs p 0) k ks \<in> fst ` set pairs" by simp
  moreover have "max_key pairs = Inr (max_from (\<lambda>p. dict_get pairs p 0) k ks)"
    using ks by (simp add: max_key_def)
  ultimately show ?thesis by simp
qed

lemma adjacent_mem: "(x, y) \<in> set (adjacent syms) \<Longrightarrow> x \<in> set syms \<and> y \<in> set syms"
proof -
  assume "(x, y) \<in> set (adjacent syms)"
  then have "x \<in> set syms" "y \<in> set (tl syms)"
    unfolding adjacent_def by (auto dest: in_set_zipE)
  then show ?thesis by (auto dest: list.set_sel(2) [rotated])
qed

lemma selected_pair_ok:
  assumes "\<forall>e\<in>set vocab. entry_ok (fst e)" and "get_stats vocab \<noteq> []"
  shows "\<exists>x y. max_key (get_stats vocab) = Inr (x, y) \<and> x \<noteq> [] \<and> nospace x \<and>
           y \<noteq> [] \<and> nospace y \<and> backslash \<notin> set (x @ y)"
proof -
  from max_key_mem [OF assms(2)] obtain best where
    mk: "max_key (get_stats vocab) = Inr best" and b: "best \<in> fst ` set (get_stats vocab)"
    by blast
  obtain x y where xy: "best = (x, y)" by (cases best)
  from b have "best \<in> (\<Union>e\<in>set vocab. set (adjacent (split_ws (fst e))))"
    using keys_fold_add_word [of vocab "[]"] by (simp add: get_stats_def)
  then obtain e where e: "e \<in> set vocab" and a: "(x, y) \<in> set (adjacent (split_ws (fst e)))"
    unfolding xy by blast
  from adjacent_mem [OF a] have xs: "x \<in> set (split_ws (fst e))" and ys: "y \<in> set (split_ws (fst e))"
    by simp_all
  from assms(1) e have bs: "backslash \<notin> set (fst e)" by (simp add: entry_ok_def)
  have "x \<noteq> []" "y \<noteq> []" using xs ys by (auto dest: split_ws_nonempty)
  moreover have "nospace x" "nospace y"
    using split_ws_free [OF xs] split_ws_free [OF ys] by (simp_all add: nospace_def list_all_iff)
  moreover have "backslash \<notin> set x" "backslash \<notin> set y"
    using split_ws_chars [OF xs] split_ws_chars [OF ys] bs by blast+
  ultimately show ?thesis using mk xy by simp
qed

lemma rewrite_ok:
  assumes "\<forall>e\<in>set vocab. entry_ok (fst e)"
  shows "\<forall>e\<in>set (rewrite_by_symbols p vocab). entry_ok (fst e)"
proof
  fix e' assume "e' \<in> set (rewrite_by_symbols p vocab)"
  then have "fst e' \<in> fst ` set (rewrite_by_symbols p vocab)" by (rule imageI)
  then have "fst e' \<in> (\<lambda>e. join_sp (merge_symbols p (split_ws (fst e)))) ` set vocab"
    unfolding rewrite_by_symbols_def
    using keys_fold_dict_set [of "\<lambda>e. join_sp (merge_symbols p (split_ws (fst e)))" snd vocab "[]"]
    by simp
  then obtain e where e: "e \<in> set vocab" and k: "fst e' = join_sp (merge_symbols p (split_ws (fst e)))"
    by blast
  from assms e have "entry_ok (fst e)" by blast
  then show "entry_ok (fst e')" unfolding k by (rule entry_ok_rewrite)
qed

lemma bpe_loop_ok:
  "\<forall>e\<in>set vocab. entry_ok (fst e) \<Longrightarrow>
     \<exists>ms v. bpe_loop n vocab acc = Inr (ms, v) \<and> (\<forall>e\<in>set v. entry_ok (fst e))"
proof (induction n arbitrary: vocab acc)
  case 0
  then show ?case by simp
next
  case (Suc n)
  show ?case
  proof (cases "get_stats vocab = []")
    case True
    with Suc.prems show ?thesis by simp
  next
    case False
    from selected_pair_ok [OF Suc.prems False] obtain x y where
      mk: "max_key (get_stats vocab) = Inr (x, y)" and
      p: "x \<noteq> []" "nospace x" "y \<noteq> []" "nospace y" "backslash \<notin> set (x @ y)"
      by blast
    from Suc.prems have wf: "list_all (\<lambda>e. wf_key (fst e)) vocab"
      by (simp add: list_all_iff entry_ok_def)
    have mv: "merge_vocab (x, y) vocab = Inr (rewrite_by_symbols (x, y) vocab)"
      by (rule merge_vocab_by_symbols [OF p wf])
    from Suc.IH [OF rewrite_ok [OF Suc.prems], of "(x, y)" "acc @ [(x, y)]"]
    obtain ms v where "bpe_loop n (rewrite_by_symbols (x, y) vocab) (acc @ [(x, y)]) = Inr (ms, v)"
      and "\<forall>e\<in>set v. entry_ok (fst e)"
      by blast
    with False mk mv show ?thesis by (simp add: Let_def)
  qed
qed

lemma tokenized_join:
  "word \<noteq> [] \<Longrightarrow> tokenized word = join_sp (map (\<lambda>c. [c]) word @ [end_marker])"
  by (simp add: tokenized_def join_sp_snoc)

lemma entry_ok_tokenized:
  assumes "word \<noteq> []" and "\<forall>c\<in>set word. \<not> isspace c" and "backslash \<notin> set word"
  shows "entry_ok (tokenized word)"
proof -
  define syms where "syms = map (\<lambda>c. [c]) word @ [end_marker]"
  have sp: "split_ws (tokenized word) = syms"
    unfolding syms_def by (rule split_ws_tokenized [OF assms(1,2)])
  have tj: "tokenized word = join_sp syms"
    unfolding syms_def by (rule tokenized_join [OF assms(1)])
  have 1: "wf_key (tokenized word)" by (simp add: wf_key_def sp tj [symmetric])
  have 2: "backslash \<notin> set (tokenized word)"
  proof
    assume "backslash \<in> set (tokenized word)"
    then have "backslash \<in> set (join_sp syms)" by (simp only: tj)
    from set_join_sp [OF this] have "\<exists>s\<in>set syms. backslash \<in> set s"
      by (simp add: backslash_def space_def)
    then have "backslash \<in> set word \<or> backslash \<in> set end_marker"
      by (auto simp: syms_def)
    with assms(3) show False by (simp add: backslash_def end_marker_def)
  qed
  have 3: "syms \<noteq> []" by (simp add: syms_def)
  have "last syms = [] @ end_marker" by (simp add: syms_def)
  then have 4: "ends_marker (last syms)" unfolding ends_marker_iff ..
  from 1 2 3 4 show ?thesis by (simp add: entry_ok_def sp)
qed

lemma initial_ok:
  assumes "\<forall>l\<in>set ls. backslash \<notin> set l"
  shows "\<forall>e\<in>set (count_lines [] ls). entry_ok (fst e)"
proof
  fix e assume "e \<in> set (count_lines [] ls)"
  then have "fst e \<in> fst ` set (count_lines [] ls)" by (rule imageI)
  from keys_count_lines [OF this]
  obtain l w where l: "l \<in> set ls" and w: "w \<in> set (split_ws l)" and k: "fst e = tokenized w"
    by auto
  have "w \<noteq> []" using w by (rule split_ws_nonempty)
  moreover have "\<forall>c\<in>set w. \<not> isspace c" using w by (rule split_ws_free)
  moreover have "backslash \<notin> set w" using split_ws_chars [OF w] assms l by blast
  ultimately show "entry_ok (fst e)" unfolding k by (rule entry_ok_tokenized)
qed

text \<open>
  Claim C4, as the code has it. In the vocabulary \<open>read_sentences\<close> builds, every entry is
  the single-character symbols of a non-empty word followed by the end marker, which is
  none of those symbols: the entry ends with exactly one end marker. The rewriter treats
  the end marker as any other symbol and may fuse it with its predecessor; what every
  vocabulary of a run keeps, on a corpus without backslash and for every budget, is that
  the run returns and that every entry is a well-formed key whose last symbol ends with
  the text of the end marker.
\<close>

theorem end_marker_invariant:
  assumes "read_sentences (Lines ls) = Inr vocab"
  shows "(\<forall>e\<in>set vocab. \<exists>word. word \<noteq> [] \<and>
            split_ws (fst e) = map (\<lambda>c. [c]) word @ [end_marker] \<and>
            end_marker \<notin> set (map (\<lambda>c. [c]) word)) \<and>
         ((\<forall>l\<in>set ls. backslash \<notin> set l) \<longrightarrow>
            (\<exists>ms v. learn_bpe (Lines ls) num_merges = (Inr (ms, v), Some (rules_text ms)) \<and>
               (\<forall>e\<in>set v. entry_ok (fst e))))"
proof (intro conjI ballI impI)
  fix e assume "e \<in> set vocab"
  then have "(fst e, snd e) \<in> set vocab" by simp
  from initial_entries_end_marker [OF assms this]
  show "\<exists>word. word \<noteq> [] \<and> split_ws (fst e) = map (\<lambda>c. [c]) word @ [end_marker] \<and>
            end_marker \<notin> set (map (\<lambda>c. [c]) word)" .
next
  assume bs: "\<forall>l\<in>set ls. backslash \<notin> set l"
  from assms have v: "vocab = count_lines [] ls"
    by (auto simp: read_sentences_def Let_def split: if_splits)
  from initial_ok [OF bs] v have "\<forall>e\<in>set vocab. entry_ok (fst e)" by simp
  from bpe_loop_ok [OF this, of "nat num_merges" "[]"] obtain ms v' where
    "bpe_loop (nat num_merges) vocab [] = Inr (ms, v')" and ok: "\<forall>e\<in>set v'. entry_ok (fst e)"
    by blast
  with assms have "learn_bpe (Lines ls) num_merges = (Inr (ms, v'), Some (rules_text ms))"
    by (simp add: learn_bpe_def)
  with ok show "\<exists>ms v. learn_bpe (Lines ls) num_merges = (Inr (ms, v), Some (rules_text ms)) \<and>
               (\<forall>e\<in>set v. entry_ok (fst e))"
    by blast
qed

theorem end_marker_invariant_witness:
  "read_sentences (Lines [ustr ''ab a'']) = Inr [(ustr ''a b </w>'', 1), (ustr ''a </w>'', 1)] \<and>
   (\<exists>word. word \<noteq> [] \<and> split_ws (ustr ''a b </w>'') = map (\<lambda>c. [c]) word @ [end_marker] \<and>
           end_marker \<notin> set (map (\<lambda>c. [c]) word)) \<and>
   (\<exists>ms v. learn_bpe (Lines [ustr ''ab a'']) 2 = (Inr (ms, v), Some (rules_text ms)) \<and>
           (\<forall>e\<in>set v. entry_ok (fst e)))"
proof -
  have h1: "read_sentences (Lines [ustr ''ab a'']) = Inr [(ustr ''a b </w>'', 1), (ustr ''a </w>'', 1)]"
    by code_simp
  have h2: "\<forall>l\<in>set [ustr ''ab a'']. backslash \<notin> set l"
    by code_simp
  note t = end_marker_invariant [OF h1, of 2]
  from t [THEN conjunct1] have
    "\<exists>word. word \<noteq> [] \<and> split_ws (fst (ustr ''a b </w>'', 1::int)) = map (\<lambda>c. [c]) word @ [end_marker] \<and>
           end_marker \<notin> set (map (\<lambda>c. [c]) word)"
    by (rule bspec) simp
  then have a: "\<exists>word. word \<noteq> [] \<and> split_ws (ustr ''a b </w>'') = map (\<lambda>c. [c]) word @ [end_marker] \<and>
           end_marker \<notin> set (map (\<lambda>c. [c]) word)"
    by (simp only: fst_conv)
  from t [THEN conjunct2] h2 have b:
    "\<exists>ms v. learn_bpe (Lines [ustr ''ab a'']) 2 = (Inr (ms, v), Some (rules_text ms)) \<and>
           (\<forall>e\<in>set v. entry_ok (fst e))"
    by (rule mp)
  show ?thesis by (rule conjI [OF h1 conjI [OF a b]])
qed

text \<open>
  Claim C4 as stated fails for the vocabularies after a rewrite. On the corpus \<open>a\<close> the
  first merge fuses \<open>a\<close> with the end marker: the entry is the single symbol \<open>a</w>\<close>
  and contains no end-marker symbol. On the corpus \<open></w>\<close> three merges fuse
  \<open><\<close>, \<open>/\<close>, \<open>w\<close>, \<open>>\<close> into a compound symbol equal to the end marker.
\<close>

theorem end_marker_fused_counterexample:
  "learn_bpe (Lines [ustr ''a'']) 1 =
     (Inr ([(ustr ''a'', end_marker)], [(ustr ''a</w>'', 1)]), Some (ustr ''a </w>'' @ [newline])) \<and>
   split_ws (ustr ''a</w>'') = [ustr ''a</w>''] \<and>
   end_marker \<notin> set (split_ws (ustr ''a</w>'')) \<and>
   learn_bpe (Lines [ustr ''</w>'']) 3 =
     (Inr ([(ustr ''<'', ustr ''/''), (ustr ''</'', ustr ''w''), (ustr ''</w'', ustr ''>'')],
          [(ustr ''</w> </w>'', 1)]),
      Some (ustr ''< /'' @ [newline] @ ustr ''</ w'' @ [newline] @ ustr ''</w >'' @ [newline])) \<and>
   split_ws (ustr ''</w> </w>'') = [end_marker, end_marker]"
  by code_simp

section \<open>Backslashes in the merged pair\<close>

text \<open>
  Claim C5 fails on the code. \<open>merge_vocab\<close> escapes the pattern (\<open>re.escape\<close>) and
  leaves the replacement \<open>''.join(pair)\<close> unescaped, so a backslash in the pair is read
  as the start of an escape. The corpus \<open>\\\<close> (one word of two backslashes) gives the
  entry \<open>\ \ </w>\<close> and the selected pair \<open>(\, \)\<close>; the regex substitution rewrites
  the entry to \<open>\ </w>\<close>, with one backslash, where the rewrite on the symbol sequence
  gives the fused symbol \<open>\\\<close> of two backslashes.
\<close>

theorem regex_rewrite_backslash:
  "learn_bpe (Lines [[backslash, backslash]]) 1 =
     (Inr ([([backslash], [backslash])], [(backslash # space # end_marker, 1)]),
      Some [backslash, space, backslash, newline]) \<and>
   read_sentences (Lines [[backslash, backslash]]) =
     Inr [(backslash # space # backslash # space # end_marker, 1)] \<and>
   merge_vocab ([backslash], [backslash]) [(backslash # space # backslash # space # end_marker, 1)] =
     Inr [(backslash # space # end_marker, 1)] \<and>
   rewrite_by_symbols ([backslash], [backslash]) [(backslash # space # backslash # space # end_marker, 1)] =
     [(backslash # backslash # space # end_marker, 1)]"
  by code_simp

text \<open>
  Claim C6 fails on the code, by the same unescaped replacement. The corpus of one word of
  four backslashes gives the entry \<open>\ \ \ \ </w>\<close> and the selected pair \<open>(\, \)\<close>;
  after the rewrite the entry is \<open>\ \ </w>\<close>, and the statistics of the rewritten
  vocabulary still report the pair, with frequency 1. With the pair \<open>(\, n)\<close> the entry
  \<open>\ n </w>\<close> of three symbols, which holds the pair once, becomes a newline and the
  end marker: one symbol for \<open>split\<close>.
\<close>

theorem rewrite_keeps_pair_backslash:
  "read_sentences (Lines [[backslash, backslash, backslash, backslash]]) =
     Inr [(join_sp [[backslash], [backslash], [backslash], [backslash], end_marker], 1)] \<and>
   max_key (get_stats [(join_sp [[backslash], [backslash], [backslash], [backslash], end_marker], 1)]) =
     Inr ([backslash], [backslash]) \<and>
   merge_vocab ([backslash], [backslash])
       [(join_sp [[backslash], [backslash], [backslash], [backslash], end_marker], 1)] =
     Inr [(join_sp [[backslash], [backslash], end_marker], 1)] \<and>
   map_of (get_stats [(join_sp [[backslash], [backslash], end_marker], 1)]) ([backslash], [backslash]) =
     Some 1 \<and>
   merge_vocab ([backslash], ustr ''n'') [(join_sp [[backslash], ustr ''n'', end_marker], 1)] =
     Inr [(join_sp [[newline], end_marker], 1)] \<and>
   count_nonoverlap ([backslash], ustr ''n'') (split_ws (join_sp [[backslash], ustr ''n'', end_marker])) = 1 \<and>
   length (split_ws (join_sp [[backslash], ustr ''n'', end_marker])) = 3 \<and>
   length (split_ws (join_sp [[newline], end_marker])) = 1"
  by code_simp

end
